theory Spec2Isabelle
  imports Main "HOL-Library.AList"
begin

section \<open>The archiver of \<^verbatim>\<open>archive.c\<close>\<close>

text \<open>
  The program packs files and directories into one flat archive of length-prefixed
  frames and unpacks such an archive again. Bytes are \<^typ>\<open>char\<close>, byte strings and C
  strings are \<^typ>\<open>string\<close>. A C string holds no NUL byte; where the source reads a C
  string out of a buffer (\<^verbatim>\<open>atoi\<close>, \<^verbatim>\<open>strlen\<close>, \<^verbatim>\<open>%s\<close>) the model takes the bytes
  before the first NUL.
\<close>

subsection \<open>Constants and C library functions\<close>

definition NAME_MAX :: nat where
  "NAME_MAX = 255"

definition NUL :: char where
  "NUL = CHR 0x00"

text \<open>The C string stored in a character array: the bytes before the first NUL.\<close>

definition c_str :: "string \<Rightarrow> string" where
  "c_str buf = takeWhile (\<lambda>c. c \<noteq> NUL) buf"

text \<open>\<^verbatim>\<open>%ld\<close> of \<^verbatim>\<open>fprintf\<close> on a non-negative value: its decimal digits.\<close>

definition digit_char :: "nat \<Rightarrow> char" where
  "digit_char d = ''0123456789'' ! d"

fun dec :: "nat \<Rightarrow> string" where
  "dec n = (if n < 10 then [digit_char n] else dec (n div 10) @ [digit_char (n mod 10)])"

declare dec.simps [simp del]

text \<open>
  \<^verbatim>\<open>atoi\<close>: white space is skipped, an optional sign is read, then the leading run of
  decimal digits. The C standard leaves the result undefined when the value does not
  fit an \<^verbatim>\<open>int\<close> (32 bits here); the model returns \<open>None\<close> there.
\<close>

definition isspace :: "char \<Rightarrow> bool" where
  "isspace c = (c \<in> set [CHR '' '', CHR 0x09, CHR 0x0A, CHR 0x0B, CHR 0x0C, CHR 0x0D])"

definition isdigit :: "char \<Rightarrow> bool" where
  "isdigit c = (48 \<le> (of_char c :: nat) \<and> (of_char c :: nat) \<le> 57)"

fun digits_val :: "int \<Rightarrow> string \<Rightarrow> int" where
  "digits_val acc [] = acc"
| "digits_val acc (c # cs) =
     (if isdigit c then digits_val (acc * 10 + int (of_char c - 48)) cs else acc)"

definition INT_MAX :: int where
  "INT_MAX = 2147483647"

definition INT_MIN :: int where
  "INT_MIN = - 2147483648"

definition atoi :: "string \<Rightarrow> int option" where
  "atoi s =
     (let t = dropWhile isspace s;
          v = (case t of
                 [] \<Rightarrow> 0
               | c # r \<Rightarrow>
                   if c = CHR ''-'' then - digits_val 0 r
                   else if c = CHR ''+'' then digits_val 0 r
                   else digits_val 0 t)
      in if INT_MIN \<le> v \<and> v \<le> INT_MAX then Some v else None)"

subsection \<open>The file system as the packer sees it\<close>

text \<open>
  An entry of the file system is a regular file, a directory with its entries in the
  order \<^verbatim>\<open>readdir\<close> returns them (without \<^verbatim>\<open>.\<close> and \<^verbatim>\<open>..\<close>), a special file, or a
  symbolic link.

  A regular file \<open>Reg sz bytes\<close> has the size that \<^verbatim>\<open>stat\<close> reports for it and the
  bytes that \<^verbatim>\<open>fread\<close> delivers from it up to the end of the file. The program obtains
  the two by different calls and they need not agree: a file of \<^verbatim>\<open>/proc\<close> has the
  size 0 and is not empty, and a file can be written to between the two calls.

  Of a special file the model keeps what \<^verbatim>\<open>fopen(fn, "w")\<close> does with it. \<open>Fifo\<close> is
  a FIFO that no process has open for reading: opening it for writing does not return.
  \<open>Device\<close> is a device that takes the bytes written to it, as \<^verbatim>\<open>/dev/null\<close> does (a
  FIFO with a reader behaves like it). \<open>Socket\<close> is a socket, which cannot be opened.

  \<^verbatim>\<open>stat\<close> and \<^verbatim>\<open>fopen\<close> follow symbolic links, so a link is represented by what they
  find behind it, a regular file or a special file. Links to directories, links whose
  target is missing, and access permissions are outside the model.
\<close>

datatype special = Fifo | Device | Socket

datatype target = To_File nat string | To_Special special

datatype node =
    Reg nat string
  | Dir "(string \<times> node) list"
  | Special special
  | Symlink target

type_synonym entries = "(string \<times> node) list"

text \<open>
  The two fields of \<^verbatim>\<open>struct stat\<close> the program reads; it reads the size of regular
  files only.
\<close>

datatype file_type = S_IFDIR | S_IFREG | S_IFOTHER

record stat_buf =
  st_mode :: file_type
  st_size :: nat

fun stat_of :: "node \<Rightarrow> stat_buf" where
  "stat_of (Reg sz bytes) = \<lparr>st_mode = S_IFREG, st_size = sz\<rparr>"
| "stat_of (Dir es) = \<lparr>st_mode = S_IFDIR, st_size = 0\<rparr>"
| "stat_of (Special k) = \<lparr>st_mode = S_IFOTHER, st_size = 0\<rparr>"
| "stat_of (Symlink (To_File sz bytes)) = \<lparr>st_mode = S_IFREG, st_size = sz\<rparr>"
| "stat_of (Symlink (To_Special k)) = \<lparr>st_mode = S_IFOTHER, st_size = 0\<rparr>"

text \<open>What \<^verbatim>\<open>fread\<close> delivers until end of file from an entry opened for reading.\<close>

fun content_of :: "node \<Rightarrow> string" where
  "content_of (Reg sz bytes) = bytes"
| "content_of (Symlink (To_File sz bytes)) = bytes"
| "content_of _ = []"

subsection \<open>Path names\<close>

text \<open>The components of a path name, split at every \<^verbatim>\<open>/\<close>.\<close>

fun split_path :: "string \<Rightarrow> string list" where
  "split_path [] = [[]]"
| "split_path (c # cs) =
     (if c = CHR ''/'' then [] # split_path cs
      else (case split_path cs of
              [] \<Rightarrow> [[c]]
            | x # xs \<Rightarrow> (c # x) # xs))"

definition is_abs :: "string \<Rightarrow> bool" where
  "is_abs path = (case path of [] \<Rightarrow> False | c # _ \<Rightarrow> c = CHR ''/'')"

subsection \<open>The packer\<close>

text \<open>
  The state the packer changes: the bytes written to the archive (\<^verbatim>\<open>outfp\<close>), to
  standard output and to standard error, and the working directory of the process, as
  the list of the directory names from the root. The packer only reads the file system,
  and its directories hold no symbolic links to directories, so \<^verbatim>\<open>chdir\<close> is modelled
  on the path alone: an empty component and \<^verbatim>\<open>.\<close> stay, \<^verbatim>\<open>..\<close> leaves the last
  directory (the root is its own parent), a name enters the directory of that name.
\<close>

record pstate =
  outfp :: string
  stdout :: string
  stderr :: string
  cwd :: "string list"

definition chdir_step :: "string \<Rightarrow> string list \<Rightarrow> string list" where
  "chdir_step c wd =
     (if c = [] \<or> c = ''.'' then wd
      else if c = ''..'' then butlast wd
      else wd @ [c])"

definition chdir_lex :: "string \<Rightarrow> string list \<Rightarrow> string list" where
  "chdir_lex path wd = fold chdir_step (split_path path) (if is_abs path then [] else wd)"

definition newline :: string where
  "newline = [CHR 0x0A]"

text \<open>The loop \<^verbatim>\<open>for (int i = 0; i < depth; i++) fprintf(stdout, "  ")\<close>.\<close>

definition indent :: "int \<Rightarrow> string" where
  "indent depth = concat (replicate (nat depth) ''  '')"

text \<open>\<^verbatim>\<open>exit(1)\<close> ends the run in the state reached; nothing is cleaned up.\<close>

datatype pack_result = Returned pstate | Exited int pstate

text \<open>
  \<open>pack\<close> is the function \<^verbatim>\<open>pack\<close>, \<open>pack_entries\<close> its \<^verbatim>\<open>readdir\<close> loop. The
  argument \<open>node\<close> is the entry that \<^verbatim>\<open>stat(fn, &st)\<close> finds under the name \<open>fn\<close>.
  The source does not check that \<^verbatim>\<open>stat\<close> succeeds; where it fails (no entry of the
  name, a link whose target is missing) the source goes on with a \<^verbatim>\<open>struct stat\<close>
  that was never filled, and the model has no such entries. The first equation is the
  branch \<^verbatim>\<open>S_ISDIR(st.st_mode)\<close>; the second holds the branch \<^verbatim>\<open>S_ISREG(st.st_mode)\<close>,
  where the size written is \<^verbatim>\<open>st.st_size\<close> and the bytes written are those read up to
  the end of the file, and the final \<^verbatim>\<open>else\<close>. The parameter \<open>may_open\<close> says whether
  \<^verbatim>\<open>opendir\<close> or \<^verbatim>\<open>fopen\<close> succeeds for a name in a working directory. The
  \<^verbatim>\<open>int depth\<close> only indents the listing.
\<close>

fun pack :: "(string list \<Rightarrow> string \<Rightarrow> bool) \<Rightarrow> string \<Rightarrow> node \<Rightarrow> int \<Rightarrow> pstate \<Rightarrow> pack_result"
  and pack_entries :: "(string list \<Rightarrow> string \<Rightarrow> bool) \<Rightarrow> entries \<Rightarrow> int \<Rightarrow> pstate \<Rightarrow> pack_result"
where
  "pack may_open fn (Dir es) depth s =
     (let s1 = s\<lparr>stdout := stdout s @ indent depth @ fn @ ''/'' @ newline\<rparr> in
      if \<not> may_open (cwd s1) fn then
        Exited 1 (s1\<lparr>stderr := stderr s1 @ ''Failed: '' @ fn @ '' is an incorrect directory.'' @ newline\<rparr>)
      else
        let s2 = s1\<lparr>outfp := outfp s1 @ dec (length fn + 1) @ '':'' @ fn @ ''/''\<rparr>;
            s3 = s2\<lparr>cwd := chdir_lex fn (cwd s2)\<rparr>
        in (case pack_entries may_open es depth s3 of
              Exited code s' \<Rightarrow> Exited code s'
            | Returned s4 \<Rightarrow>
                Returned (s4\<lparr>outfp := outfp s4 @ ''0:'', cwd := chdir_lex ''..'' (cwd s4)\<rparr>)))"
| "pack may_open fn node depth s =
     (if st_mode (stat_of node) = S_IFREG then
        (let s1 = s\<lparr>stdout := stdout s @ indent depth @ fn @ newline\<rparr> in
         if \<not> may_open (cwd s1) fn then
           Exited 1 (s1\<lparr>stderr := stderr s1 @ ''Failed: '' @ fn @ '' is an incorrect filepath.'' @ newline\<rparr>)
         else
           Returned (s1\<lparr>outfp := outfp s1 @ dec (length fn) @ '':'' @ fn
                                   @ dec (st_size (stat_of node)) @ '':'' @ content_of node\<rparr>))
      else
        Returned (s\<lparr>stderr := stderr s @ ''Skipping non-regular file `'' @ fn @ [CHR 0x27] @ ''.'' @ newline\<rparr>))"
| "pack_entries may_open [] depth s = Returned s"
| "pack_entries may_open ((d_name, child) # es) depth s =
     (if d_name = ''.'' \<or> d_name = ''..'' then pack_entries may_open es depth s
      else (case pack may_open d_name child (depth + 1) s of
              Exited code s' \<Rightarrow> Exited code s'
            | Returned s' \<Rightarrow> pack_entries may_open es depth s'))"

subsection \<open>Reading a block of the archive\<close>

text \<open>
  What stops the unpacker before it returns: undefined behaviour, the end of the
  process in \<^verbatim>\<open>err\<close>, or a call that does not return.
\<close>

datatype error =
    Out_Of_Bounds nat       \<comment> \<open>an array is written or read at this index, outside it\<close>
  | Atoi_Range              \<comment> \<open>\<^verbatim>\<open>atoi\<close> of a number that does not fit an \<^verbatim>\<open>int\<close>\<close>
  | Mkpath_Failed           \<comment> \<open>\<^verbatim>\<open>err(errno, "mkpath()")\<close>\<close>
  | Null_File               \<comment> \<open>\<^verbatim>\<open>fopen\<close> returned NULL and the stream is used\<close>
  | Fopen_Blocks            \<comment> \<open>\<^verbatim>\<open>fopen\<close> waits for a reader of a FIFO and does not return\<close>

text \<open>The assignment \<^verbatim>\<open>output[i] = c\<close> on an array of \<open>length output\<close> bytes.\<close>

definition store :: "string \<Rightarrow> nat \<Rightarrow> char \<Rightarrow> error + string" where
  "store output i c = (if i < length output then Inr (output[i := c]) else Inl (Out_Of_Bounds i))"

text \<open>
  \<open>next_block_from i\<close> is the loop of \<^verbatim>\<open>next_block\<close> with the counter at \<open>i\<close>, followed
  by the final \<^verbatim>\<open>output[i] = '\0'\<close>. The stream is the list of the bytes not yet read;
  \<^verbatim>\<open>fread\<close> fails at its end. The test \<^verbatim>\<open>i < max_reads\<close> comes first, so no byte is
  read once the limit is reached; a delimiter is read and dropped. The counter is an
  \<^verbatim>\<open>unsigned short\<close> and wraps at \<open>65536\<close>.
\<close>

fun next_block_from :: "nat \<Rightarrow> string \<Rightarrow> string \<Rightarrow> char \<Rightarrow> int \<Rightarrow> error + (string \<times> string)" where
  "next_block_from i [] output delim max_reads =
     (case store output i NUL of
        Inl e \<Rightarrow> Inl e
      | Inr output' \<Rightarrow> Inr ([], output'))"
| "next_block_from i (b # fp) output delim max_reads =
     (if int i < max_reads then
        (if b \<noteq> delim then
           (case store output i b of
              Inl e \<Rightarrow> Inl e
            | Inr output' \<Rightarrow> next_block_from (Suc i mod 65536) fp output' delim max_reads)
         else
           (case store output i NUL of
              Inl e \<Rightarrow> Inl e
            | Inr output' \<Rightarrow> Inr (fp, output')))
      else
        (case store output i NUL of
           Inl e \<Rightarrow> Inl e
         | Inr output' \<Rightarrow> Inr (b # fp, output')))"

definition next_block :: "string \<Rightarrow> string \<Rightarrow> char \<Rightarrow> int \<Rightarrow> error + (string \<times> string)" where
  "next_block fp output delim max_reads = next_block_from 0 fp output delim max_reads"

subsection \<open>The file system as the unpacker changes it\<close>

text \<open>
  The unpacker creates directories and files relative to the working directory of the
  process and moves that directory. Its file system is the tree seen from the working
  directory: \<open>here\<close> are the entries of the working directory, \<open>above\<close> lists its
  ancestors from the nearest to the root, each as the entries before the directory that
  was entered, the name of that directory, and the entries after it. The root has
  nothing above it. New entries are appended to their directory.
\<close>

record fs =
  here :: entries
  above :: "(entries \<times> string \<times> entries) list"

text \<open>Leaving the working directory for its parent; the root is its own parent.\<close>

definition up :: "fs \<Rightarrow> fs" where
  "up z =
     (case above z of
        [] \<Rightarrow> z
      | (before, n, after) # rest \<Rightarrow> \<lparr>here = before @ (n, Dir (here z)) # after, above = rest\<rparr>)"

text \<open>Entering the directory of the working directory with this name, if there is one.\<close>

definition down :: "string \<Rightarrow> fs \<Rightarrow> fs option" where
  "down n z =
     (case map_of (here z) n of
        Some (Dir es) \<Rightarrow>
          Some \<lparr>here = es,
                above = (takeWhile (\<lambda>e. fst e \<noteq> n) (here z), n,
                         tl (dropWhile (\<lambda>e. fst e \<noteq> n) (here z))) # above z\<rparr>
      | _ \<Rightarrow> None)"

definition top :: "fs \<Rightarrow> fs" where
  "top z = (up ^^ length (above z)) z"

definition cwd_names :: "fs \<Rightarrow> string list" where
  "cwd_names z = rev (map (\<lambda>(before, n, after). n) (above z))"

fun descend :: "string list \<Rightarrow> fs \<Rightarrow> fs option" where
  "descend [] z = Some z"
| "descend (n # ns) z = (case down n z of None \<Rightarrow> None | Some z' \<Rightarrow> descend ns z')"

text \<open>
  Path resolution, component by component: every component but the last must lead to a
  directory. \<open>walk\<close> moves the working directory along a path.
\<close>

fun walk :: "string list \<Rightarrow> fs \<Rightarrow> fs option" where
  "walk [] z = Some z"
| "walk (c # cs) z =
     (if c = [] \<or> c = ''.'' then walk cs z
      else if c = ''..'' then walk cs (up z)
      else (case down c z of None \<Rightarrow> None | Some z' \<Rightarrow> walk cs z'))"

text \<open>\<open>look\<close> finds the entry a path names, without moving.\<close>

fun look :: "string list \<Rightarrow> fs \<Rightarrow> node option" where
  "look [] z = Some (Dir (here z))"
| "look (c # cs) z =
     (if c = [] \<or> c = ''.'' then look cs z
      else if c = ''..'' then look cs (up z)
      else (case map_of (here z) c of
              None \<Rightarrow> None
            | Some n \<Rightarrow>
                (case down c z of
                   Some z' \<Rightarrow> look cs z'
                 | None \<Rightarrow> if cs = [] then Some n else None)))"

text \<open>
  \<open>at_parent f\<close> resolves all components but the last, applies \<open>f\<close> to the last
  component and the entries of the directory reached, and comes back to where it
  started.
\<close>

fun at_parent :: "(string \<Rightarrow> entries \<Rightarrow> entries option) \<Rightarrow> string list \<Rightarrow> fs \<Rightarrow> fs option" where
  "at_parent f [] z = None"
| "at_parent f [c] z =
     (if c = [] \<or> c = ''.'' \<or> c = ''..'' then None
      else (case f c (here z) of None \<Rightarrow> None | Some es \<Rightarrow> Some (z\<lparr>here := es\<rparr>)))"
| "at_parent f (c # d # cs) z =
     (if c = [] \<or> c = ''.'' then at_parent f (d # cs) z
      else if c = ''..'' then
        (case above z of
           [] \<Rightarrow> at_parent f (d # cs) z
         | (before, n, after) # rest \<Rightarrow>
             (case at_parent f (d # cs) (up z) of None \<Rightarrow> None | Some z' \<Rightarrow> down n z'))
      else
        (case down c z of
           None \<Rightarrow> None
         | Some z1 \<Rightarrow> (case at_parent f (d # cs) z1 of None \<Rightarrow> None | Some z' \<Rightarrow> Some (up z'))))"

definition at_path :: "(string \<Rightarrow> entries \<Rightarrow> entries option) \<Rightarrow> string list \<Rightarrow> bool \<Rightarrow> fs \<Rightarrow> fs option" where
  "at_path f comps from_root z =
     (if from_root then
        (case at_parent f comps (top z) of None \<Rightarrow> None | Some t \<Rightarrow> descend (cwd_names z) t)
      else at_parent f comps z)"

text \<open>
  \<^verbatim>\<open>stat\<close>: the empty path names nothing; symbolic links are followed, so the result is
  the \<^verbatim>\<open>struct stat\<close> of what is found.
\<close>

definition stat :: "string \<Rightarrow> fs \<Rightarrow> stat_buf option" where
  "stat path z =
     (if path = [] then None
      else map_option stat_of (look (split_path path) (if is_abs path then top z else z)))"

text \<open>\<^verbatim>\<open>chdir\<close>: \<open>None\<close> when it fails; the working directory then stays.\<close>

definition chdir :: "string \<Rightarrow> fs \<Rightarrow> fs option" where
  "chdir path z =
     (if path = [] then None
      else walk (split_path path) (if is_abs path then top z else z))"

definition chdir_unchecked :: "string \<Rightarrow> fs \<Rightarrow> fs" where
  "chdir_unchecked path z = (case chdir path z of None \<Rightarrow> z | Some z' \<Rightarrow> z')"

text \<open>\<^verbatim>\<open>mkdir\<close>: the parent must exist and the name must be free; slashes at the end are ignored.\<close>

definition mkdir_entry :: "string \<Rightarrow> entries \<Rightarrow> entries option" where
  "mkdir_entry c es = (if c \<in> fst ` set es then None else Some (es @ [(c, Dir [])]))"

definition strip_slashes :: "string list \<Rightarrow> string list" where
  "strip_slashes comps = rev (dropWhile (\<lambda>c. c = []) (rev comps))"

definition mkdir :: "string \<Rightarrow> fs \<Rightarrow> fs option" where
  "mkdir path z =
     (if path = [] then None
      else at_path mkdir_entry (strip_slashes (split_path path)) (is_abs path) z)"

text \<open>
  \<^verbatim>\<open>fopen(fn, "w")\<close> does not return when the path leads to a FIFO without a reader,
  directly or through a symbolic link.
\<close>

fun is_fifo :: "node \<Rightarrow> bool" where
  "is_fifo (Special Fifo) = True"
| "is_fifo (Symlink (To_Special Fifo)) = True"
| "is_fifo _ = False"

definition fopen_blocks :: "string \<Rightarrow> fs \<Rightarrow> bool" where
  "fopen_blocks path z =
     (path \<noteq> [] \<and>
      (case look (split_path path) (if is_abs path then top z else z) of
         None \<Rightarrow> False
       | Some n \<Rightarrow> is_fifo n))"

text \<open>
  A file opened with \<^verbatim>\<open>fopen(fn, "w")\<close> and closed after these bytes were written: a
  new file is created, an existing regular file (also behind a symbolic link) gets the
  new content and has its size, a device takes the bytes and the file system stays as
  it is, a directory and a socket cannot be opened. The result \<open>None\<close> is the stream
  NULL. A FIFO without a reader is listed for completeness: the unpacker asks
  \<open>fopen_blocks\<close> first.
\<close>

definition write_entry :: "string \<Rightarrow> string \<Rightarrow> entries \<Rightarrow> entries option" where
  "write_entry bytes c es =
     (case map_of es c of
        None \<Rightarrow> Some (es @ [(c, Reg (length bytes) bytes)])
      | Some (Reg sz old) \<Rightarrow> Some (AList.update c (Reg (length bytes) bytes) es)
      | Some (Symlink (To_File sz old)) \<Rightarrow>
          Some (AList.update c (Symlink (To_File (length bytes) bytes)) es)
      | Some (Special Device) \<Rightarrow> Some es
      | Some (Symlink (To_Special Device)) \<Rightarrow> Some es
      | Some other \<Rightarrow> None)"

definition write_file :: "string \<Rightarrow> string \<Rightarrow> fs \<Rightarrow> fs option" where
  "write_file path bytes z =
     (if path = [] then None
      else at_path (write_entry bytes) (split_path path) (is_abs path) z)"

subsection \<open>Creating a directory with its parents\<close>

text \<open>
  \<open>mkpath_from tmp rest\<close> is the loop of \<^verbatim>\<open>mkpath\<close> with the pointer \<^verbatim>\<open>p\<close> before
  \<open>rest\<close>: \<open>tmp\<close> are the bytes before \<^verbatim>\<open>p\<close>, which is the C string in \<^verbatim>\<open>tmp\<close> while
  the byte at \<^verbatim>\<open>p\<close> is overwritten by NUL. The result is the value returned and the file
  system left behind. Permissions (the \<^verbatim>\<open>mode\<close>) are not modelled.
\<close>

fun mkpath_from :: "string \<Rightarrow> string \<Rightarrow> fs \<Rightarrow> int \<times> fs" where
  "mkpath_from tmp [] z = (0, z)"
| "mkpath_from tmp (c # rest) z =
     (if c = CHR ''/'' then
        (case stat tmp z of
           None \<Rightarrow>
             (case mkdir tmp z of
                None \<Rightarrow> (- 1, z)
              | Some z' \<Rightarrow> mkpath_from (tmp @ [c]) rest z')
         | Some st \<Rightarrow>
             if st_mode st \<noteq> S_IFDIR then (- 1, z)
             else mkpath_from (tmp @ [c]) rest z)
      else mkpath_from (tmp @ [c]) rest z)"

definition mkpath :: "string \<Rightarrow> fs \<Rightarrow> int \<times> fs" where
  "mkpath pathname z = mkpath_from [] pathname z"

subsection \<open>The unpacker\<close>

text \<open>
  The state of \<^verbatim>\<open>unpack\<close>: the bytes of the archive not yet read, the two arrays
  \<^verbatim>\<open>fn\<close> and \<^verbatim>\<open>buff\<close>, the byte variable \<^verbatim>\<open>buffer\<close>, the file system with the working
  directory, the \<^verbatim>\<open>depth\<close> counter and what was printed on standard output. The
  counter is an \<^verbatim>\<open>int\<close>; it changes by one per frame and is modelled without a bound.
  The variable \<^verbatim>\<open>buffer\<close> is declared in the loop body without a value; it has the
  same storage in every pass and is taken to keep its byte from one pass to the next.
\<close>

record ustate =
  fp :: string
  fn_buf :: string
  buff :: string
  buffer :: char
  fsys :: fs
  depth :: int
  ustdout :: string

text \<open>
  The loop that copies \<^verbatim>\<open>file_length\<close> bytes. The result of \<^verbatim>\<open>fread\<close> is not
  checked: at the end of the archive it leaves \<^verbatim>\<open>buffer\<close> as it was, and the byte is
  written all the same. The result is the rest of the archive, the byte in \<^verbatim>\<open>buffer\<close>
  and the bytes written.
\<close>

fun copy_payload :: "nat \<Rightarrow> string \<Rightarrow> char \<Rightarrow> string \<Rightarrow> string \<times> char \<times> string" where
  "copy_payload 0 src b written = (src, b, written)"
| "copy_payload (Suc n) [] b written = copy_payload n [] b (written @ [b])"
| "copy_payload (Suc n) (c # src) b written = copy_payload n src c (written @ [c])"

text \<open>
  The last branch of the loop body: a file. The stream \<^verbatim>\<open>newfile\<close> is not checked;
  when \<^verbatim>\<open>fopen\<close> failed it is NULL and is used by \<^verbatim>\<open>fwrite\<close> or \<^verbatim>\<open>fclose\<close>. A
  \<^verbatim>\<open>file_length\<close> below 1 copies nothing.
\<close>

definition unpack_file :: "string \<Rightarrow> ustate \<Rightarrow> error + ustate" where
  "unpack_file name s =
     (case next_block (fp s) (buff s) (CHR '':'') (int NAME_MAX) of
        Inl e \<Rightarrow> Inl e
      | Inr (fp3, buff2) \<Rightarrow>
          (case atoi (c_str buff2) of
             None \<Rightarrow> Inl Atoi_Range
           | Some file_length \<Rightarrow>
               if fopen_blocks name (fsys s) then Inl Fopen_Blocks
               else
                 (case write_file name [] (fsys s) of
                    None \<Rightarrow> Inl Null_File
                  | Some z0 \<Rightarrow>
                      (case copy_payload (nat file_length) fp3 (buffer s) [] of
                         (fp4, b, bytes) \<Rightarrow>
                           (case write_file name bytes z0 of
                              None \<Rightarrow> Inl Null_File
                            | Some z1 \<Rightarrow>
                                Inr (s\<lparr>fp := fp4, buff := buff2, buffer := b, fsys := z1\<rparr>))))))"

text \<open>
  One pass through the body of \<^verbatim>\<open>while(1)\<close>, up to the test for the end of the file.
  With an empty name, \<^verbatim>\<open>fn[strlen(fn)-1]\<close> reads before the array.
\<close>

definition unpack_frame :: "ustate \<Rightarrow> error + ustate" where
  "unpack_frame s =
     (case next_block (fp s) (buff s) (CHR '':'') (int NAME_MAX) of
        Inl e \<Rightarrow> Inl e
      | Inr (fp1, buff1) \<Rightarrow>
          (case atoi (c_str buff1) of
             None \<Rightarrow> Inl Atoi_Range
           | Some fn_length \<Rightarrow>
               (case next_block fp1 (fn_buf s) (CHR '':'') fn_length of
                  Inl e \<Rightarrow> Inl e
                | Inr (fp2, fn1) \<Rightarrow>
                    (let name = c_str fn1;
                         s1 = s\<lparr>fp := fp2, fn_buf := fn1, buff := buff1\<rparr>
                     in
                       if fn_length = 0 then
                         Inr (s1\<lparr>fsys := chdir_unchecked ''..'' (fsys s1), depth := depth s1 - 1\<rparr>)
                       else if name = [] then
                         Inl (Out_Of_Bounds (2 ^ 64 - 1))
                       else if last name = CHR ''/'' then
                         (case mkpath name (fsys s1) of
                            (r, z1) \<Rightarrow>
                              if r \<noteq> 0 then Inl Mkpath_Failed
                              else Inr (s1\<lparr>ustdout := ustdout s1 @ indent (depth s1) @ name @ newline,
                                           fsys := chdir_unchecked name z1,
                                           depth := depth s1 + 1\<rparr>))
                       else
                         unpack_file name
                           (s1\<lparr>ustdout := ustdout s1 @ indent (depth s1) @ name @ newline\<rparr>)))))"

text \<open>
  The loop \<^verbatim>\<open>while(1)\<close>: after each frame \<^verbatim>\<open>getc\<close> looks for a next byte and the
  loop ends when there is none. \<open>None\<close> is a run that does not end: the loop goes on
  for ever, or \<^verbatim>\<open>fopen\<close> does not return.
\<close>

partial_function (option) unpack_loop :: "ustate \<Rightarrow> (error + ustate) option" where
  "unpack_loop s =
     (case unpack_frame s of
        Inl e \<Rightarrow> if e = Fopen_Blocks then None else Some (Inl e)
      | Inr s' \<Rightarrow> if fp s' = [] then Some (Inr s') else unpack_loop s')"

declare unpack_loop.simps [code]

text \<open>
  \<^verbatim>\<open>unpack\<close>: the arrays and the byte variable are not initialised, \<open>junk\<close> gives
  their bytes at the start.
\<close>

definition unpack :: "(nat \<Rightarrow> char) \<Rightarrow> string \<Rightarrow> int \<Rightarrow> fs \<Rightarrow> (error + ustate) option" where
  "unpack junk archive depth0 z =
     unpack_loop \<lparr>fp = archive,
                  fn_buf = map junk [0 ..< NAME_MAX],
                  buff = map junk [NAME_MAX ..< 2 * NAME_MAX],
                  buffer = junk (2 * NAME_MAX),
                  fsys = z,
                  depth = depth0,
                  ustdout = ''Contents of Extracted Archive:'' @ newline\<rparr>"

section \<open>The wire format and what the claims speak about\<close>

subsection \<open>Frames\<close>

text \<open>
  The frames of the wire format with their fields: a directory frame with the declared
  length and the name, a file frame with the declared length, the name, the declared
  size and the content, and the end-of-directory sentinel. \<open>render\<close> gives the bytes
  of a frame. \<open>frames\<close> lists the frames \<^verbatim>\<open>pack\<close> writes for an entry, call by call
  of \<^verbatim>\<open>fprintf\<close>; the declared size of a file is \<^verbatim>\<open>st.st_size\<close>, its content the
  bytes read from it.
\<close>

datatype frame =
    Dir_Frame nat string
  | File_Frame nat string nat string
  | End_Dir

fun render :: "frame \<Rightarrow> string" where
  "render (Dir_Frame n name) = dec n @ '':'' @ name @ ''/''"
| "render (File_Frame n name m bytes) = dec n @ '':'' @ name @ dec m @ '':'' @ bytes"
| "render End_Dir = ''0:''"

fun frames :: "string \<Rightarrow> node \<Rightarrow> frame list"
  and frames_entries :: "entries \<Rightarrow> frame list"
where
  "frames fn (Dir es) = Dir_Frame (length fn + 1) fn # frames_entries es @ [End_Dir]"
| "frames fn node =
     (if st_mode (stat_of node) = S_IFREG
      then [File_Frame (length fn) fn (st_size (stat_of node)) (content_of node)]
      else [])"
| "frames_entries [] = []"
| "frames_entries ((d_name, child) # es) =
     (if d_name = ''.'' \<or> d_name = ''..'' then [] else frames d_name child) @ frames_entries es"

definition archive :: "string \<Rightarrow> node \<Rightarrow> string" where
  "archive fn node = concat (map render (frames fn node))"

definition archive_entries :: "entries \<Rightarrow> string" where
  "archive_entries es = concat (map render (frames_entries es))"

text \<open>
  The first field of a frame, as the unpacker reads it: the bytes before the first
  colon.
\<close>

definition length_field :: "frame \<Rightarrow> string" where
  "length_field f = takeWhile (\<lambda>c. c \<noteq> CHR '':'') (render f)"

text \<open>The declared lengths of a frame are the true ones.\<close>

fun faithful :: "frame \<Rightarrow> bool" where
  "faithful (Dir_Frame n name) = (n = length name + 1)"
| "faithful (File_Frame n name m bytes) = (n = length name \<and> m = length bytes)"
| "faithful End_Dir = True"

text \<open>
  The size \<^verbatim>\<open>stat\<close> reports for every regular file of a tree, also for one behind a
  symbolic link, is the number of the bytes read from it.
\<close>

fun sized :: "node \<Rightarrow> bool"
  and sized_entries :: "entries \<Rightarrow> bool"
where
  "sized (Dir es) = sized_entries es"
| "sized node =
     (st_mode (stat_of node) = S_IFREG \<longrightarrow> st_size (stat_of node) = length (content_of node))"
| "sized_entries [] = True"
| "sized_entries ((d_name, child) # es) = (sized child \<and> sized_entries es)"

subsection \<open>The tree an archive stands for\<close>

text \<open>
  What is left of an entry in the archive: a directory keeps the entries that are
  packed, a regular file and a link to a regular file become a regular file with the
  content and its length as the size, everything else is left out, as are entries named
  \<^verbatim>\<open>.\<close> and \<^verbatim>\<open>..\<close>.
\<close>

fun extracted :: "node \<Rightarrow> node option"
  and extracted_entries :: "entries \<Rightarrow> entries"
where
  "extracted (Dir es) = Some (Dir (extracted_entries es))"
| "extracted node =
     (if st_mode (stat_of node) = S_IFREG
      then Some (Reg (length (content_of node)) (content_of node))
      else None)"
| "extracted_entries [] = []"
| "extracted_entries ((d_name, child) # es) =
     (if d_name = ''.'' \<or> d_name = ''..'' then []
      else (case extracted child of None \<Rightarrow> [] | Some x \<Rightarrow> [(d_name, x)]))
     @ extracted_entries es"

text \<open>
  A path component: a name as a directory holds it. A plain name is a component without
  a colon and without NUL.
\<close>

definition component :: "string \<Rightarrow> bool" where
  "component c = (c \<noteq> [] \<and> c \<noteq> ''.'' \<and> c \<noteq> ''..'' \<and> CHR ''/'' \<notin> set c)"

definition plain_name :: "string \<Rightarrow> bool" where
  "plain_name n = (component n \<and> CHR '':'' \<notin> set n \<and> NUL \<notin> set n)"

text \<open>
  The entries the unpacker reads back as they were packed: the names that are packed
  are plain, leave room for the final NUL in the array of \<open>NAME_MAX\<close> bytes (for a
  directory after the \<^verbatim>\<open>/\<close>), differ within a directory, and the size \<^verbatim>\<open>stat\<close>
  reports for a file is the number of its bytes and fits an \<^verbatim>\<open>int\<close>.
\<close>

fun fits :: "string \<Rightarrow> node \<Rightarrow> bool"
  and fits_entries :: "entries \<Rightarrow> bool"
where
  "fits fn (Dir es) =
     (plain_name fn \<and> length fn + 1 < NAME_MAX \<and> fits_entries es \<and>
      distinct (map fst (extracted_entries es)))"
| "fits fn node =
     (if st_mode (stat_of node) = S_IFREG
      then plain_name fn \<and> length fn < NAME_MAX \<and>
           st_size (stat_of node) = length (content_of node) \<and>
           int (st_size (stat_of node)) \<le> INT_MAX
      else True)"
| "fits_entries [] = True"
| "fits_entries ((d_name, child) # es) =
     ((if d_name = ''.'' \<or> d_name = ''..'' then True else fits d_name child) \<and> fits_entries es)"

text \<open>The names in a tree are path components, or \<^verbatim>\<open>.\<close> and \<^verbatim>\<open>..\<close>, which the packer passes over.\<close>

fun component_names :: "node \<Rightarrow> bool"
  and component_names_entries :: "entries \<Rightarrow> bool"
where
  "component_names (Dir es) = component_names_entries es"
| "component_names node = True"
| "component_names_entries [] = True"
| "component_names_entries ((d_name, child) # es) =
     ((d_name = ''.'' \<or> d_name = ''..'' \<or> component d_name) \<and> component_names child \<and>
      component_names_entries es)"

text \<open>The names in a tree are not empty.\<close>

fun named :: "node \<Rightarrow> bool"
  and named_entries :: "entries \<Rightarrow> bool"
where
  "named (Dir es) = named_entries es"
| "named node = True"
| "named_entries [] = True"
| "named_entries ((d_name, child) # es) = (d_name \<noteq> [] \<and> named child \<and> named_entries es)"

subsection \<open>Directory creation as the specification words it\<close>

text \<open>
  The path of a directory entry with the components \<open>cs\<close>: every component is followed
  by a \<^verbatim>\<open>/\<close>. \<open>ensure_dirs cs es\<close> is what the specification asks of directory
  creation in a directory with the entries \<open>es\<close>: a component that exists as a
  directory is entered and left as it is, a missing component is created with the
  missing components below it (\<open>new_dirs\<close>), nothing else changes, and a component that
  exists but is no directory makes the creation fail.
\<close>

definition path_of :: "string list \<Rightarrow> string" where
  "path_of cs = concat (map (\<lambda>c. c @ ''/'') cs)"

fun new_dirs :: "string list \<Rightarrow> entries" where
  "new_dirs [] = []"
| "new_dirs (c # cs) = [(c, Dir (new_dirs cs))]"

fun ensure_dirs :: "string list \<Rightarrow> entries \<Rightarrow> entries option" where
  "ensure_dirs [] es = Some es"
| "ensure_dirs (c # cs) es =
     (case map_of es c of
        None \<Rightarrow> Some (es @ [(c, Dir (new_dirs cs))])
      | Some (Dir sub) \<Rightarrow>
          (case ensure_dirs cs sub of
             None \<Rightarrow> None
           | Some sub' \<Rightarrow> Some (AList.update c (Dir sub') es))
      | Some other \<Rightarrow> None)"

subsection \<open>A file system without a FIFO that blocks\<close>

text \<open>
  No entry of the tree, below the working directory or beside and above it, is a FIFO
  without a reader or a symbolic link to one.
\<close>

fun no_fifo_node :: "node \<Rightarrow> bool"
  and no_fifo_entries :: "entries \<Rightarrow> bool"
where
  "no_fifo_node (Dir es) = no_fifo_entries es"
| "no_fifo_node node = (\<not> is_fifo node)"
| "no_fifo_entries [] = True"
| "no_fifo_entries ((d_name, child) # es) = (no_fifo_node child \<and> no_fifo_entries es)"

definition no_fifo :: "fs \<Rightarrow> bool" where
  "no_fifo z =
     (no_fifo_entries (here z) \<and>
      list_all (\<lambda>(before, n, after). no_fifo_entries before \<and> no_fifo_entries after) (above z))"

subsection \<open>Notions for the proofs\<close>

text \<open>Both arrays of \<^verbatim>\<open>unpack\<close> have \<open>NAME_MAX\<close> bytes.\<close>

definition arrays_ok :: "ustate \<Rightarrow> bool" where
  "arrays_ok s = (length (fn_buf s) = NAME_MAX \<and> length (buff s) = NAME_MAX)"

text \<open>An array after the bytes \<open>xs\<close> and a NUL were stored from index \<open>i\<close> on.\<close>

definition filled :: "string \<Rightarrow> nat \<Rightarrow> string \<Rightarrow> string" where
  "filled outp i xs = take i outp @ xs @ NUL # drop (Suc (i + length xs)) outp"

text \<open>
  The bytes \<^verbatim>\<open>next_block\<close> takes from a stream as its block, and the stream it
  leaves.
\<close>

definition block :: "string \<Rightarrow> char \<Rightarrow> int \<Rightarrow> string" where
  "block src delim max_reads = takeWhile (\<lambda>b. b \<noteq> delim) (take (nat max_reads) src)"

definition after_block :: "string \<Rightarrow> char \<Rightarrow> int \<Rightarrow> string" where
  "after_block src delim max_reads =
     (let n = length (block src delim max_reads)
      in if int n < max_reads then drop (Suc n) src else drop n src)"

section \<open>Properties of the library functions\<close>

lemma digit_char_props:
  assumes "d < 10"
  shows "isdigit (digit_char d)" and "of_char (digit_char d) - 48 = d"
proof -
  from assms have "d \<in> {0, 1, 2, 3, 4, 5, 6, 7, 8, 9}" by auto
  then show "isdigit (digit_char d)" and "of_char (digit_char d) - 48 = d"
    by (auto simp: digit_char_def isdigit_def)
qed

lemma isdigit_not_special:
  assumes "isdigit c"
  shows "c \<noteq> CHR '':''" "c \<noteq> NUL" "\<not> isspace c" "c \<noteq> CHR ''-''" "c \<noteq> CHR ''+''" "c \<noteq> CHR ''/''"
  using assms by (auto simp: isdigit_def NUL_def isspace_def)

lemma dec_digits: "c \<in> set (dec n) \<Longrightarrow> isdigit c"
proof (induction n arbitrary: c rule: dec.induct)
  case (1 n)
  show ?case
  proof (cases "n < 10")
    case True
    with "1.prems" show ?thesis by (simp add: dec.simps [of n] digit_char_props)
  next
    case False
    with "1.prems" "1.IH" show ?thesis
      by (auto simp: dec.simps [of n] digit_char_props)
  qed
qed

lemma dec_nonempty: "dec n \<noteq> []"
  by (subst dec.simps) simp

lemma digits_val_append:
  "\<forall>c \<in> set xs. isdigit c \<Longrightarrow> digits_val a (xs @ ys) = digits_val (digits_val a xs) ys"
  by (induction xs arbitrary: a) auto

lemma digits_val_dec: "digits_val 0 (dec n) = int n"
proof (induction n rule: dec.induct)
  case (1 n)
  show ?case
  proof (cases "n < 10")
    case True
    then show ?thesis by (simp add: dec.simps [of n] digit_char_props)
  next
    case False
    have "digits_val 0 (dec n) = digits_val (digits_val 0 (dec (n div 10))) [digit_char (n mod 10)]"
      using False by (simp add: dec.simps [of n] digits_val_append dec_digits)
    also have "\<dots> = int (n div 10) * 10 + int (n mod 10)"
      using False "1.IH" by (simp add: digit_char_props)
    also have "\<dots> = int n" by presburger
    finally show ?thesis .
  qed
qed

lemma atoi_dec: "atoi (dec n) = (if int n \<le> INT_MAX then Some (int n) else None)"
proof -
  obtain c r where cr: "dec n = c # r" using dec_nonempty [of n] by (cases "dec n") auto
  then have d: "isdigit c" using dec_digits [of c n] by simp
  have "dropWhile isspace (dec n) = dec n"
    using cr d by (simp add: isdigit_not_special)
  then show ?thesis
    using cr d digits_val_dec [of n]
    by (simp add: atoi_def Let_def isdigit_not_special INT_MIN_def)
qed

lemma length_dec: "n < 10 ^ k \<Longrightarrow> 0 < k \<Longrightarrow> length (dec n) \<le> k"
proof (induction n arbitrary: k rule: dec.induct)
  case (1 n)
  show ?case
  proof (cases "n < 10")
    case True
    with "1.prems" show ?thesis by (simp add: dec.simps [of n])
  next
    case False
    with "1.prems" obtain j where k: "k = Suc j" by (cases k) auto
    with False "1.prems" have j: "0 < j" by (cases j) auto
    have "n div 10 < 10 ^ j" using "1.prems" k by (simp add: less_mult_imp_div_less mult.commute)
    with "1.IH" [OF False this j] False k show ?thesis by (simp add: dec.simps [of n])
  qed
qed

lemma store_ok: "i < length outp \<Longrightarrow> store outp i c = Inr (outp[i := c])"
  by (simp add: store_def)

lemma store_length: "store outp i c = Inr outp' \<Longrightarrow> length outp' = length outp"
  by (auto simp: store_def split: if_splits)

lemma filled_Nil: "i < length outp \<Longrightarrow> outp[i := NUL] = filled outp i []"
  by (simp add: filled_def upd_conv_take_nth_drop)

lemma filled_Cons:
  "i < length outp \<Longrightarrow> filled (outp[i := b]) (Suc i) xs = filled outp i (b # xs)"
  by (simp add: filled_def take_Suc_conv_app_nth)

lemma length_filled: "i + length xs < length outp \<Longrightarrow> length (filled outp i xs) = length outp"
  by (simp add: filled_def)

lemma takeWhile_upto_NUL: "NUL \<notin> set xs \<Longrightarrow> takeWhile (\<lambda>c. c \<noteq> NUL) (xs @ NUL # ys) = xs"
  by (induction xs) auto

lemma c_str_filled: "NUL \<notin> set xs \<Longrightarrow> c_str (filled outp 0 xs) = xs"
  by (simp add: filled_def c_str_def takeWhile_upto_NUL)

lemma next_block_from_delim:
  assumes "delim \<notin> set xs" "i + length xs < length outp" "length outp \<le> 65536"
    "int (i + length xs) < max_reads"
  shows "next_block_from i (xs @ delim # rest) outp delim max_reads = Inr (rest, filled outp i xs)"
  using assms
proof (induction xs arbitrary: i outp)
  case Nil
  then show ?case by (simp add: store_ok filled_Nil)
next
  case (Cons b xs)
  have m: "Suc i mod 65536 = Suc i" using Cons.prems by simp
  have "next_block_from i ((b # xs) @ delim # rest) outp delim max_reads
      = next_block_from (Suc i) (xs @ delim # rest) (outp[i := b]) delim max_reads"
    using Cons.prems by (auto simp: store_ok m)
  also have "\<dots> = Inr (rest, filled (outp[i := b]) (Suc i) xs)"
    using Cons.prems by (intro Cons.IH) auto
  finally show ?case using Cons.prems by (simp add: filled_Cons)
qed

lemma next_block_from_limit:
  assumes "delim \<notin> set xs" "i + length xs < length outp" "length outp \<le> 65536"
    "max_reads = int (i + length xs)"
  shows "next_block_from i (xs @ rest) outp delim max_reads = Inr (rest, filled outp i xs)"
  using assms
proof (induction xs arbitrary: i outp)
  case Nil
  then show ?case by (cases rest) (simp_all add: store_ok filled_Nil)
next
  case (Cons b xs)
  have m: "Suc i mod 65536 = Suc i" using Cons.prems by simp
  have "next_block_from i ((b # xs) @ rest) outp delim max_reads
      = next_block_from (Suc i) (xs @ rest) (outp[i := b]) delim max_reads"
    using Cons.prems by (auto simp: store_ok m)
  also have "\<dots> = Inr (rest, filled (outp[i := b]) (Suc i) xs)"
    using Cons.prems by (intro Cons.IH) auto
  finally show ?case using Cons.prems by (simp add: filled_Cons)
qed

lemma next_block_delim:
  assumes "CHR '':'' \<notin> set xs" "length xs < NAME_MAX" "length outp = NAME_MAX"
  shows "next_block (xs @ CHR '':'' # rest) outp (CHR '':'') (int NAME_MAX) = Inr (rest, filled outp 0 xs)"
  unfolding next_block_def using assms
  by (intro next_block_from_delim) (simp_all add: NAME_MAX_def)

lemma next_block_limit:
  assumes "CHR '':'' \<notin> set xs" "length xs < NAME_MAX" "length outp = NAME_MAX"
  shows "next_block (xs @ rest) outp (CHR '':'') (int (length xs)) = Inr (rest, filled outp 0 xs)"
  unfolding next_block_def using assms
  by (intro next_block_from_limit) (simp_all add: NAME_MAX_def)

lemma next_block_from_length:
  "next_block_from i src outp delim max_reads = Inr (src', outp') \<Longrightarrow>
     length src' \<le> length src \<and> length outp' = length outp"
proof (induction src arbitrary: i outp)
  case Nil
  then show ?case by (auto simp: store_def split: if_splits)
next
  case (Cons b src)
  show ?case
  proof (cases "int i < max_reads \<and> b \<noteq> delim")
    case True
    with Cons.prems obtain o1 where o1: "store outp i b = Inr o1"
      and r: "next_block_from (Suc i mod 65536) src o1 delim max_reads = Inr (src', outp')"
      by (auto split: sum.splits)
    from Cons.IH [OF r] store_length [OF o1] show ?thesis by simp
  next
    case False
    with Cons.prems show ?thesis by (auto simp: store_def split: if_splits)
  qed
qed

lemma next_block_from_progress:
  "next_block_from i (b # src) outp delim max_reads = Inr (src', outp') \<Longrightarrow>
     int i < max_reads \<Longrightarrow> length src' \<le> length src"
proof (cases "b \<noteq> delim")
  case True
  assume a: "next_block_from i (b # src) outp delim max_reads = Inr (src', outp')" "int i < max_reads"
  with True obtain o1 where "next_block_from (Suc i mod 65536) src o1 delim max_reads = Inr (src', outp')"
    by (auto split: sum.splits)
  from next_block_from_length [OF this] show ?thesis by simp
next
  case False
  assume "next_block_from i (b # src) outp delim max_reads = Inr (src', outp')" "int i < max_reads"
  with False show ?thesis by (auto split: sum.splits)
qed

lemma copy_payload_length:
  "copy_payload n src b w = (src', b', w') \<Longrightarrow> length src' \<le> length src"
  by (induction n src b w rule: copy_payload.induct) auto

lemma copy_payload_exact:
  "copy_payload (length xs) (xs @ rest) b w = (rest, last (b # xs), w @ xs)"
  by (induction xs arbitrary: b w) auto

lemma split_path_no_slash: "CHR ''/'' \<notin> set n \<Longrightarrow> split_path n = [n]"
  by (induction n) auto

lemma split_path_append_slash:
  "CHR ''/'' \<notin> set n \<Longrightarrow> split_path (n @ CHR ''/'' # rest) = n # split_path rest"
  by (induction n) auto

lemma is_abs_plain: "plain_name n \<Longrightarrow> \<not> is_abs n" "plain_name n \<Longrightarrow> \<not> is_abs (n @ rest)"
  by (cases n; auto simp: plain_name_def component_def is_abs_def)+

lemma look_single:
  "c \<noteq> [] \<Longrightarrow> c \<noteq> ''.'' \<Longrightarrow> c \<noteq> ''..'' \<Longrightarrow> look [c] z = map_of (here z) c"
  by (auto simp: down_def split: option.splits node.splits)

lemma stat_plain: "plain_name n \<Longrightarrow> stat n z = map_option stat_of (map_of (here z) n)"
  using is_abs_plain(1) [of n]
  by (simp add: stat_def split_path_no_slash plain_name_def component_def look_single del: look.simps)

lemma mkdir_plain:
  "plain_name n \<Longrightarrow> map_of (here z) n = None \<Longrightarrow>
     mkdir n z = Some (z\<lparr>here := here z @ [(n, Dir [])]\<rparr>)"
  using is_abs_plain(1) [of n]
  by (auto simp: mkdir_def split_path_no_slash plain_name_def component_def strip_slashes_def at_path_def
      mkdir_entry_def map_of_eq_None_iff)

lemma mkpath_from_no_slash:
  "CHR ''/'' \<notin> set cs \<Longrightarrow> mkpath_from tmp (cs @ rest) z = mkpath_from (tmp @ cs) rest z"
  by (induction cs arbitrary: tmp) auto

lemma mkpath_plain_new:
  assumes "plain_name n" "map_of (here z) n = None"
  shows "mkpath (n @ ''/'') z = (0, z\<lparr>here := here z @ [(n, Dir [])]\<rparr>)"
proof -
  have "CHR ''/'' \<notin> set n" using assms by (simp add: plain_name_def component_def)
  then have "mkpath (n @ ''/'') z = mkpath_from n ''/'' z"
    using mkpath_from_no_slash [of n "[]" "''/''" z] by (simp add: mkpath_def)
  then show ?thesis using assms by (simp add: stat_plain mkdir_plain)
qed

lemma takeWhile_fresh: "map_of es n = None \<Longrightarrow> takeWhile (\<lambda>e. fst e \<noteq> n) (es @ (n, v) # after) = es"
  by (induction es) (auto split: if_splits)

lemma dropWhile_fresh: "map_of es n = None \<Longrightarrow> dropWhile (\<lambda>e. fst e \<noteq> n) (es @ (n, v) # after) = (n, v) # after"
  by (induction es) (auto split: if_splits)

lemma map_of_mid: "map_of es n = None \<Longrightarrow> map_of (es @ (n, v) # after) n = Some v"
  by (induction es) (auto split: if_splits)

lemma down_fresh:
  "map_of es n = None \<Longrightarrow>
     down n (z\<lparr>here := es @ (n, Dir d) # after\<rparr>) = Some \<lparr>here = d, above = (es, n, after) # above z\<rparr>"
  by (simp add: down_def map_of_mid takeWhile_fresh dropWhile_fresh del: map_of_append)

lemma chdir_down:
  assumes "plain_name n"
  shows "chdir_unchecked (n @ ''/'') z = (case down n z of None \<Rightarrow> z | Some z' \<Rightarrow> z')"
  using assms is_abs_plain(2) [of n "''/''"]
  by (simp add: chdir_unchecked_def chdir_def split_path_append_slash plain_name_def component_def split: option.splits)

lemma chdir_dotdot: "chdir_unchecked ''..'' z = up z"
  by (simp add: chdir_unchecked_def chdir_def is_abs_def)

lemma write_file_plain_new:
  "plain_name n \<Longrightarrow> map_of (here z) n = None \<Longrightarrow>
     write_file n bytes z = Some (z\<lparr>here := here z @ [(n, Reg (length bytes) bytes)]\<rparr>)"
  using is_abs_plain(1) [of n]
  by (simp add: write_file_def split_path_no_slash plain_name_def component_def at_path_def write_entry_def)

lemma write_file_plain_old:
  "plain_name n \<Longrightarrow> map_of (here z) n = Some (Reg sz old) \<Longrightarrow>
     write_file n bytes z = Some (z\<lparr>here := AList.update n (Reg (length bytes) bytes) (here z)\<rparr>)"
  using is_abs_plain(1) [of n]
  by (simp add: write_file_def split_path_no_slash plain_name_def component_def at_path_def write_entry_def)

lemma fopen_blocks_new: "plain_name n \<Longrightarrow> map_of (here z) n = None \<Longrightarrow> \<not> fopen_blocks n z"
  using is_abs_plain(1) [of n]
  by (simp add: fopen_blocks_def split_path_no_slash plain_name_def component_def look_single
      del: look.simps)

lemma update_last: "map_of es n = None \<Longrightarrow> AList.update n v (es @ [(n, w)]) = es @ [(n, v)]"
  by (induction es) (auto split: if_splits)

lemma map_of_snoc: "map_of es n = None \<Longrightarrow> map_of (es @ [(n, v)]) n = Some v"
  by (induction es) (auto split: if_splits)


lemma unpack_loop_step:
  "unpack_frame s = Inr s' \<Longrightarrow> unpack_loop s = (if fp s' = [] then Some (Inr s') else unpack_loop s')"
  by (subst unpack_loop.simps) simp

lemma dec_no_colon: "CHR '':'' \<notin> set (dec n)" and dec_no_NUL: "NUL \<notin> set (dec n)"
  using dec_digits isdigit_not_special by blast+

lemma dec_short: "int n \<le> INT_MAX \<Longrightarrow> length (dec n) < NAME_MAX"
proof -
  assume "int n \<le> INT_MAX"
  then have "n < 10 ^ 10" by (simp add: INT_MAX_def)
  from length_dec [OF this] show ?thesis by (simp add: NAME_MAX_def)
qed

lemma unpack_frame_endI:
  assumes "next_block (fp s) (buff s) (CHR '':'') (int NAME_MAX) = Inr (fp1, buff1)"
    and "atoi (c_str buff1) = Some 0"
    and "next_block fp1 (fn_buf s) (CHR '':'') 0 = Inr (fp2, fn1)"
  shows "unpack_frame s =
     Inr (s\<lparr>fp := fp2, fn_buf := fn1, buff := buff1,
            fsys := up (fsys s), depth := depth s - 1\<rparr>)"
  using assms by (simp add: unpack_frame_def Let_def chdir_dotdot)

lemma unpack_frame_dirI:
  assumes "next_block (fp s) (buff s) (CHR '':'') (int NAME_MAX) = Inr (fp1, buff1)"
    and "atoi (c_str buff1) = Some len"
    and "next_block fp1 (fn_buf s) (CHR '':'') len = Inr (fp2, fn1)"
    and "len \<noteq> 0" "c_str fn1 = name" "name \<noteq> []" "last name = CHR ''/''"
    and "mkpath name (fsys s) = (0, z1)" "chdir_unchecked name z1 = z2"
  shows "unpack_frame s =
     Inr (s\<lparr>fp := fp2, fn_buf := fn1, buff := buff1,
            ustdout := ustdout s @ indent (depth s) @ name @ newline,
            fsys := z2, depth := depth s + 1\<rparr>)"
  using assms by (simp add: unpack_frame_def Let_def)

lemma unpack_frame_fileI:
  assumes "next_block (fp s) (buff s) (CHR '':'') (int NAME_MAX) = Inr (fp1, buff1)"
    and "atoi (c_str buff1) = Some len"
    and "next_block fp1 (fn_buf s) (CHR '':'') len = Inr (fp2, fn1)"
    and "len \<noteq> 0" "c_str fn1 = name" "name \<noteq> []" "last name \<noteq> CHR ''/''"
    and "next_block fp2 buff1 (CHR '':'') (int NAME_MAX) = Inr (fp3, buff2)"
    and "atoi (c_str buff2) = Some flen"
    and "\<not> fopen_blocks name (fsys s)"
    and "write_file name [] (fsys s) = Some z0"
    and "copy_payload (nat flen) fp3 (buffer s) [] = (fp4, b, bytes)"
    and "write_file name bytes z0 = Some z1"
  shows "unpack_frame s =
     Inr (s\<lparr>fp := fp4, fn_buf := fn1, buff := buff2, buffer := b,
            ustdout := ustdout s @ indent (depth s) @ name @ newline,
            fsys := z1\<rparr>)"
  using assms by (simp add: unpack_frame_def unpack_file_def Let_def)

lemma frame_dir:
  assumes ok: "arrays_ok s" and name: "plain_name n" "length n + 1 < NAME_MAX"
    and fresh: "map_of (here (fsys s)) n = None"
    and inp: "fp s = dec (length n + 1) @ '':'' @ n @ ''/'' @ rest"
  shows "unpack_frame s =
     Inr (s\<lparr>fp := rest,
            fn_buf := filled (fn_buf s) 0 (n @ ''/''),
            buff := filled (buff s) 0 (dec (length n + 1)),
            ustdout := ustdout s @ indent (depth s) @ (n @ ''/'') @ newline,
            fsys := \<lparr>here = [], above = (here (fsys s), n, []) # above (fsys s)\<rparr>,
            depth := depth s + 1\<rparr>)"
proof (rule unpack_frame_dirI)
  let ?len = "dec (length n + 1)"
  let ?z = "fsys s"
  have small: "int (length n + 1) \<le> INT_MAX" using name by (simp add: NAME_MAX_def INT_MAX_def)
  show "next_block (fp s) (buff s) (CHR '':'') (int NAME_MAX)
      = Inr ((n @ ''/'') @ rest, filled (buff s) 0 ?len)"
    using ok inp next_block_delim [of ?len "buff s" "(n @ ''/'') @ rest"] dec_no_colon dec_short [OF small]
    by (simp add: arrays_ok_def)
  show "atoi (c_str (filled (buff s) 0 ?len)) = Some (int (length (n @ ''/'')))"
    using small by (simp add: c_str_filled dec_no_NUL atoi_dec)
  have nocolon: "CHR '':'' \<notin> set (n @ ''/'')" "NUL \<notin> set (n @ ''/'')"
    using name by (auto simp: plain_name_def component_def NUL_def)
  show "next_block ((n @ ''/'') @ rest) (fn_buf s) (CHR '':'') (int (length (n @ ''/'')))
      = Inr (rest, filled (fn_buf s) 0 (n @ ''/''))"
    using ok name nocolon by (intro next_block_limit) (simp_all add: arrays_ok_def)
  show "c_str (filled (fn_buf s) 0 (n @ ''/'')) = n @ ''/''"
    using nocolon by (simp add: c_str_filled del: set_append)
  show "mkpath (n @ ''/'') ?z = (0, ?z\<lparr>here := here ?z @ [(n, Dir [])]\<rparr>)"
    using name(1) fresh by (rule mkpath_plain_new)
  show "chdir_unchecked (n @ ''/'') (?z\<lparr>here := here ?z @ [(n, Dir [])]\<rparr>)
      = \<lparr>here = [], above = (here ?z, n, []) # above ?z\<rparr>"
    using name(1) fresh down_fresh [where es = "here ?z" and n = n and z = ?z and d = "[]" and after = "[]"]
    by (simp add: chdir_down)
qed simp_all

lemma frame_file:
  assumes ok: "arrays_ok s" and name: "plain_name n" "length n < NAME_MAX"
    and size: "int (length bytes) \<le> INT_MAX"
    and fresh: "map_of (here (fsys s)) n = None"
    and inp: "fp s = dec (length n) @ '':'' @ n @ dec (length bytes) @ '':'' @ bytes @ rest"
  shows "unpack_frame s =
     Inr (s\<lparr>fp := rest,
            fn_buf := filled (fn_buf s) 0 n,
            buff := filled (filled (buff s) 0 (dec (length n))) 0 (dec (length bytes)),
            buffer := last (buffer s # bytes),
            ustdout := ustdout s @ indent (depth s) @ n @ newline,
            fsys := (fsys s)\<lparr>here := here (fsys s) @ [(n, Reg (length bytes) bytes)]\<rparr>\<rparr>)"
proof (rule unpack_frame_fileI)
  let ?len = "dec (length n)"
  let ?size = "dec (length bytes)"
  let ?z = "fsys s"
  let ?buff1 = "filled (buff s) 0 ?len"
  let ?after = "?size @ CHR '':'' # bytes @ rest"
  have small: "int (length n) \<le> INT_MAX" using name by (simp add: NAME_MAX_def INT_MAX_def)
  show "next_block (fp s) (buff s) (CHR '':'') (int NAME_MAX) = Inr (n @ ?after, ?buff1)"
    using ok inp next_block_delim [of ?len "buff s" "n @ ?after"] dec_no_colon dec_short [OF small]
    by (simp add: arrays_ok_def)
  show "atoi (c_str ?buff1) = Some (int (length n))"
    using small by (simp add: c_str_filled dec_no_NUL atoi_dec)
  have ne: "n \<noteq> []" using name by (simp add: plain_name_def component_def)
  then show "n \<noteq> []" .
  from ne show "int (length n) \<noteq> 0" by simp
  have "last n \<in> set n" using ne by simp
  then show "last n \<noteq> CHR ''/''" using name(1) unfolding plain_name_def component_def by metis
  have n0: "CHR '':'' \<notin> set n" "NUL \<notin> set n"
    using name by (auto simp: plain_name_def component_def)
  show "next_block (n @ ?after) (fn_buf s) (CHR '':'') (int (length n))
      = Inr (?after, filled (fn_buf s) 0 n)"
    using ok name n0 by (intro next_block_limit) (simp_all add: arrays_ok_def)
  show "c_str (filled (fn_buf s) 0 n) = n"
    using n0 by (simp add: c_str_filled)
  have len1: "length ?buff1 = NAME_MAX"
    using ok dec_short [OF small] by (simp add: arrays_ok_def length_filled)
  show "next_block ?after ?buff1 (CHR '':'') (int NAME_MAX) = Inr (bytes @ rest, filled ?buff1 0 ?size)"
    using len1 dec_no_colon dec_short [OF size] by (intro next_block_delim) simp_all
  show "atoi (c_str (filled ?buff1 0 ?size)) = Some (int (length bytes))"
    using size by (simp add: c_str_filled dec_no_NUL atoi_dec)
  show "\<not> fopen_blocks n ?z"
    using name(1) fresh by (rule fopen_blocks_new)
  show "write_file n [] ?z = Some (?z\<lparr>here := here ?z @ [(n, Reg 0 [])]\<rparr>)"
    using name fresh write_file_plain_new [of n ?z "[]"] by simp
  show "copy_payload (nat (int (length bytes))) (bytes @ rest) (buffer s) []
      = (rest, last (buffer s # bytes), bytes)"
    using copy_payload_exact [of bytes rest "buffer s" "[]"] by simp
  show "write_file n bytes (?z\<lparr>here := here ?z @ [(n, Reg 0 [])]\<rparr>)
      = Some (?z\<lparr>here := here ?z @ [(n, Reg (length bytes) bytes)]\<rparr>)"
    using name fresh write_file_plain_old [of n "?z\<lparr>here := here ?z @ [(n, Reg 0 [])]\<rparr>" 0 "[]" bytes]
    by (simp add: map_of_snoc update_last del: map_of_append)
qed

lemma frame_end:
  assumes "arrays_ok s" "fp s = ''0:'' @ rest"
  shows "unpack_frame s =
     Inr (s\<lparr>fp := rest, fn_buf := filled (fn_buf s) 0 [], buff := filled (buff s) 0 ''0'',
            fsys := up (fsys s), depth := depth s - 1\<rparr>)"
proof (rule unpack_frame_endI)
  show "next_block (fp s) (buff s) (CHR '':'') (int NAME_MAX) = Inr (rest, filled (buff s) 0 ''0'')"
    using assms next_block_delim [of "''0''" "buff s" rest] by (simp add: arrays_ok_def NAME_MAX_def)
  show "atoi (c_str (filled (buff s) 0 ''0'')) = Some 0"
    using atoi_dec [of 0] by (simp add: c_str_filled NUL_def dec.simps [of 0] digit_char_def INT_MAX_def)
  show "next_block rest (fn_buf s) (CHR '':'') 0 = Inr (rest, filled (fn_buf s) 0 [])"
    using assms next_block_limit [of "[]" "fn_buf s" rest] by (simp add: arrays_ok_def NAME_MAX_def)
qed

lemma archive_Dir:
  "archive fn (Dir es) = dec (length fn + 1) @ '':'' @ fn @ ''/'' @ archive_entries es @ ''0:''"
  by (simp add: archive_def archive_entries_def)

lemma archive_entries_Cons:
  "archive_entries ((n, c) # es) =
     (if n = ''.'' \<or> n = ''..'' then [] else archive n c) @ archive_entries es"
  by (simp add: archive_def archive_entries_def)








text \<open>Induction over an entry and over the entries of a directory.\<close>

lemmas entry_induct =
  frames_frames_entries.induct [case_names Dir Reg Special Symlink Nil Cons]


lemma takeWhile_NUL_any: "takeWhile (\<lambda>c. c \<noteq> NUL) (xs @ NUL # ys) = takeWhile (\<lambda>c. c \<noteq> NUL) xs"
  by (induction xs) auto

lemma c_str_filled_any: "c_str (filled outp 0 xs) = c_str xs"
  by (simp add: filled_def c_str_def takeWhile_NUL_any)

lemma next_block_from_general:
  assumes "length outp < 65536" "i \<le> length outp"
  shows "next_block_from i src outp delim max_reads =
     (let xs = block src delim (max_reads - int i)
      in if i + length xs < length outp
         then Inr (after_block src delim (max_reads - int i), filled outp i xs)
         else Inl (Out_Of_Bounds (length outp)))"
  using assms
proof (induction src arbitrary: i outp)
  case Nil
  then show ?case
    by (auto simp: block_def after_block_def store_def filled_Nil)
next
  case (Cons b src)
  show ?case
  proof (cases "int i < max_reads")
    case False
    then have "nat (max_reads - int i) = 0" by simp
    then have "block (b # src) delim (max_reads - int i) = []" by (simp add: block_def)
    moreover from this False have "after_block (b # src) delim (max_reads - int i) = b # src"
      by (simp add: after_block_def)
    ultimately show ?thesis using False Cons.prems
      by (auto simp: store_def filled_Nil)
  next
    case True
    then obtain k where k: "nat (max_reads - int i) = Suc k"
      by (cases "nat (max_reads - int i)") auto
    then have k': "nat (max_reads - int (Suc i)) = k" by simp
    show ?thesis
    proof (cases "b = delim")
      case True
      then have "block (b # src) delim (max_reads - int i) = []" using k by (simp add: block_def)
      moreover from this have "after_block (b # src) delim (max_reads - int i) = src"
        using \<open>int i < max_reads\<close> by (simp add: after_block_def)
      ultimately show ?thesis using True \<open>int i < max_reads\<close> Cons.prems
        by (auto simp: store_def filled_Nil)
    next
      case False
      have blk: "block (b # src) delim (max_reads - int i) = b # block src delim (max_reads - int (Suc i))"
        using False k k' by (simp add: block_def)
      have aft: "after_block (b # src) delim (max_reads - int i) = after_block src delim (max_reads - int (Suc i))"
        using blk by (auto simp: after_block_def Let_def)
      show ?thesis
      proof (cases "i < length outp")
        case False
        with \<open>b \<noteq> delim\<close> \<open>int i < max_reads\<close> Cons.prems blk show ?thesis
          by (simp add: store_def)
      next
        case True
        then have m: "Suc i mod 65536 = Suc i" using Cons.prems by simp
        have "next_block_from i (b # src) outp delim max_reads
            = next_block_from (Suc i) src (outp[i := b]) delim max_reads"
          using True \<open>b \<noteq> delim\<close> \<open>int i < max_reads\<close> by (simp add: store_def m)
        also have "\<dots> = (let xs = block src delim (max_reads - int (Suc i))
            in if Suc i + length xs < length (outp[i := b])
               then Inr (after_block src delim (max_reads - int (Suc i)), filled (outp[i := b]) (Suc i) xs)
               else Inl (Out_Of_Bounds (length (outp[i := b]))))"
          using True Cons.prems by (intro Cons.IH) auto
        finally show ?thesis using True blk aft by (simp add: Let_def filled_Cons)
      qed
    qed
  qed
qed

lemma next_block_general:
  assumes "length outp = NAME_MAX"
  shows "next_block src outp delim max_reads =
     (if length (block src delim max_reads) < NAME_MAX
      then Inr (after_block src delim max_reads, filled outp 0 (block src delim max_reads))
      else Inl (Out_Of_Bounds NAME_MAX))"
  using next_block_from_general [of outp 0 src delim max_reads] assms
  by (simp add: next_block_def NAME_MAX_def Let_def)

section \<open>The loop of the unpacker\<close>

lemma arrays_ok_initial:
  "arrays_ok \<lparr>fp = a, fn_buf = map junk [0 ..< NAME_MAX],
      buff = map junk [NAME_MAX ..< 2 * NAME_MAX], buffer = b, fsys = z, depth = d, ustdout = t\<rparr>"
  by (simp add: arrays_ok_def)

lemma unpack_single_sentinel:
  "\<exists>u. unpack junk ''0:'' d z = Some (Inr u) \<and> fp u = [] \<and> depth u = d - 1 \<and> fsys u = up z"
proof -
  let ?s = "\<lparr>fp = ''0:'', fn_buf = map junk [0 ..< NAME_MAX],
      buff = map junk [NAME_MAX ..< 2 * NAME_MAX], buffer = junk (2 * NAME_MAX),
      fsys = z, depth = d,
      ustdout = ''Contents of Extracted Archive:'' @ newline\<rparr>"
  have "arrays_ok ?s" by (rule arrays_ok_initial)
  from frame_end [OF this, of "[]"] unpack_loop_step [of ?s]
  show ?thesis by (simp add: unpack_def)
qed

lemma unpack_frame_progress:
  assumes "unpack_frame s = Inr s'"
  shows "length (fp s') \<le> length (fp s) \<and> (fp s \<noteq> [] \<longrightarrow> length (fp s') < length (fp s))"
proof -
  from assms obtain fp1 buff1 where nb1: "next_block (fp s) (buff s) (CHR '':'') (int NAME_MAX) = Inr (fp1, buff1)"
    by (auto simp: unpack_frame_def split: sum.splits)
  have l1: "length fp1 \<le> length (fp s)"
    using nb1 next_block_from_length unfolding next_block_def by blast
  have l1': "fp s \<noteq> [] \<Longrightarrow> length fp1 < length (fp s)"
  proof -
    assume "fp s \<noteq> []"
    then obtain b src where bs: "fp s = b # src" by (cases "fp s") auto
    from nb1 have "next_block_from 0 (b # src) (buff s) (CHR '':'') (int NAME_MAX) = Inr (fp1, buff1)"
      by (simp add: next_block_def bs)
    from next_block_from_progress [OF this] show ?thesis by (simp add: bs NAME_MAX_def)
  qed
  from assms nb1 obtain len where len: "atoi (c_str buff1) = Some len"
    by (auto simp: unpack_frame_def split: option.splits)
  from assms nb1 len obtain fp2 fn1 where nb2: "next_block fp1 (fn_buf s) (CHR '':'') len = Inr (fp2, fn1)"
    by (auto simp: unpack_frame_def split: sum.splits)
  have l2: "length fp2 \<le> length fp1"
    using nb2 next_block_from_length unfolding next_block_def by blast
  have l3: "length (fp s') \<le> length fp2"
  proof (cases "len = 0 \<or> last (c_str fn1) = CHR ''/''")
    case True
    with assms nb1 len nb2 show ?thesis
      by (auto simp: unpack_frame_def Let_def split: if_splits prod.splits)
  next
    case False
    let ?s2 = "s\<lparr>fp := fp2, fn_buf := fn1, buff := buff1,
       ustdout := ustdout s @ indent (depth s) @ c_str fn1 @ newline\<rparr>"
    from False assms nb1 len nb2 have uf: "unpack_file (c_str fn1) ?s2 = Inr s'"
      by (auto simp: unpack_frame_def Let_def split: if_splits)
    then obtain fp3 buff2 where nb3: "next_block fp2 buff1 (CHR '':'') (int NAME_MAX) = Inr (fp3, buff2)"
      by (auto simp: unpack_file_def split: sum.splits)
    have l4: "length fp3 \<le> length fp2"
      using nb3 next_block_from_length unfolding next_block_def by blast
    from uf nb3 obtain flen where flen: "atoi (c_str buff2) = Some flen"
      by (auto simp: unpack_file_def split: option.splits)
    from uf nb3 flen have nb: "\<not> fopen_blocks (c_str fn1) (fsys s)"
      by (auto simp: unpack_file_def split: if_splits)
    from uf nb3 flen nb obtain z0 where z0: "write_file (c_str fn1) [] (fsys s) = Some z0"
      by (auto simp: unpack_file_def split: option.splits)
    obtain fp4 b bytes where cp: "copy_payload (nat flen) fp3 (buffer s) [] = (fp4, b, bytes)"
      by (cases "copy_payload (nat flen) fp3 (buffer s) []") auto
    from uf nb3 flen nb z0 cp have "fp s' = fp4"
      by (auto simp: unpack_file_def split: option.splits)
    with copy_payload_length [OF cp] l4 show ?thesis by simp
  qed
  from l1 l1' l2 l3 show ?thesis by auto
qed

text \<open>The unpacker puts no FIFO into the file system.\<close>

lemma no_fifo_entries_set: "no_fifo_entries es \<longleftrightarrow> (\<forall>e \<in> set es. no_fifo_node (snd e))"
  by (induction es) auto

lemma no_fifo_entries_append:
  "no_fifo_entries (xs @ ys) \<longleftrightarrow> no_fifo_entries xs \<and> no_fifo_entries ys"
  by (auto simp: no_fifo_entries_set)

lemma no_fifo_map_of: "no_fifo_entries es \<Longrightarrow> map_of es n = Some x \<Longrightarrow> no_fifo_node x"
  by (induction es) (auto split: if_splits)

lemma no_fifo_takeWhile: "no_fifo_entries es \<Longrightarrow> no_fifo_entries (takeWhile P es)"
  by (auto simp: no_fifo_entries_set dest: set_takeWhileD)

lemma no_fifo_dropWhile: "no_fifo_entries es \<Longrightarrow> no_fifo_entries (tl (dropWhile P es))"
proof -
  assume a: "no_fifo_entries es"
  have "set (tl (dropWhile P es)) \<subseteq> set es"
    by (metis list.set_sel(2) set_dropWhileD subsetI tl_Nil)
  with a show ?thesis by (auto simp: no_fifo_entries_set)
qed

lemma no_fifo_update:
  "no_fifo_entries es \<Longrightarrow> no_fifo_node x \<Longrightarrow> no_fifo_entries (AList.update n x es)"
  by (induction es) auto

lemma no_fifo_up: "no_fifo z \<Longrightarrow> no_fifo (up z)"
  by (auto simp: no_fifo_def up_def no_fifo_entries_append split: list.splits)

lemma no_fifo_down: "down n z = Some z' \<Longrightarrow> no_fifo z \<Longrightarrow> no_fifo z'"
  by (auto simp: no_fifo_def down_def no_fifo_takeWhile no_fifo_dropWhile
      split: option.splits node.splits dest: no_fifo_map_of)

lemma no_fifo_ups: "no_fifo z \<Longrightarrow> no_fifo ((up ^^ k) z)"
  by (induction k) (auto simp: no_fifo_up)

lemma no_fifo_top: "no_fifo z \<Longrightarrow> no_fifo (top z)"
  by (simp add: top_def no_fifo_ups)

lemma no_fifo_descend: "descend ns z = Some z' \<Longrightarrow> no_fifo z \<Longrightarrow> no_fifo z'"
  by (induction ns arbitrary: z) (auto split: option.splits dest: no_fifo_down)

lemma no_fifo_walk: "walk cs z = Some z' \<Longrightarrow> no_fifo z \<Longrightarrow> no_fifo z'"
  by (induction cs z rule: walk.induct) (auto split: if_splits option.splits dest: no_fifo_down no_fifo_up)

lemma no_fifo_look: "look cs z = Some x \<Longrightarrow> no_fifo z \<Longrightarrow> no_fifo_node x"
proof (induction cs z rule: look.induct)
  case (1 z)
  then show ?case by (auto simp: no_fifo_def)
next
  case (2 c cs z)
  show ?case
  proof (cases "c = [] \<or> c = ''.''")
    case True
    with 2 show ?thesis by auto
  next
    case False
    note plain = this
    show ?thesis
    proof (cases "c = ''..''")
      case True
      with 2 plain show ?thesis by (auto simp: no_fifo_up)
    next
      case False
      with "2.prems" plain obtain y where y: "map_of (here z) c = Some y"
        by (auto split: option.splits)
      show ?thesis
      proof (cases "down c z")
        case None
        with "2.prems" plain False y have "x = y" by (auto split: if_splits)
        with y "2.prems"(2) show ?thesis by (auto simp: no_fifo_def dest: no_fifo_map_of)
      next
        case (Some z')
        with "2.prems" plain False y have "look cs z' = Some x" by auto
        from "2.IH"(3) [OF _ False y Some this] plain no_fifo_down [OF Some "2.prems"(2)]
        show ?thesis by auto
      qed
    qed
  qed
qed

lemma no_fifo_fopen: "no_fifo z \<Longrightarrow> \<not> fopen_blocks path z"
proof
  assume z: "no_fifo z" and b: "fopen_blocks path z"
  let ?z = "if is_abs path then top z else z"
  from b obtain x where x: "look (split_path path) ?z = Some x" "is_fifo x"
    by (auto simp: fopen_blocks_def split: option.splits)
  from z have "no_fifo ?z" by (simp add: no_fifo_top)
  from no_fifo_look [OF x(1) this] x(2) show False by (cases x rule: is_fifo.cases) auto
qed

lemma no_fifo_at_parent:
  "at_parent f cs z = Some z' \<Longrightarrow>
   \<forall>c es es'. f c es = Some es' \<longrightarrow> no_fifo_entries es \<longrightarrow> no_fifo_entries es' \<Longrightarrow>
   no_fifo z \<Longrightarrow> no_fifo z'"
proof (induction f cs z arbitrary: z' rule: at_parent.induct)
  case (1 f z)
  then show ?case by simp
next
  case (2 f c z)
  from "2.prems"(1) obtain es' where e: "f c (here z) = Some es'" "z' = z\<lparr>here := es'\<rparr>"
    by (auto split: if_splits option.splits)
  from "2.prems"(2) e(1) "2.prems"(3) have "no_fifo_entries es'"
    unfolding no_fifo_def by blast
  with e(2) "2.prems"(3) show ?case by (simp add: no_fifo_def)
next
  case (3 f c d cs z)
  show ?case
  proof (cases "c = [] \<or> c = ''.''")
    case True
    with 3 show ?thesis by auto
  next
    case False
    note plain = this
    show ?thesis
    proof (cases "c = ''..''")
      case True
      note dotdot = this
      show ?thesis
      proof (cases "above z")
        case Nil
        with 3 plain dotdot show ?thesis by auto
      next
        case (Cons a rest)
        obtain before n after where a: "a = (before, n, after)" by (cases a) auto
        from "3.prems" plain dotdot Cons a obtain z1 where
          z1: "at_parent f (d # cs) (up z) = Some z1" "down n z1 = Some z'"
          by (auto split: option.splits)
        have "no_fifo z1"
          using "3.IH"(3) plain dotdot Cons a z1(1) "3.prems"(2,3) no_fifo_up by blast
        from no_fifo_down [OF z1(2) this] show ?thesis .
      qed
    next
      case False
      with "3.prems" plain obtain z1 z2 where
        z: "down c z = Some z1" "at_parent f (d # cs) z1 = Some z2" "z' = up z2"
        by (auto split: option.splits)
      have "no_fifo z2"
        using "3.IH"(4) plain False z(1,2) "3.prems"(2,3) no_fifo_down by blast
      with z(3) show ?thesis by (simp add: no_fifo_up)
    qed
  qed
qed

lemma no_fifo_at_path:
  assumes f: "\<And>c es es'. f c es = Some es' \<Longrightarrow> no_fifo_entries es \<Longrightarrow> no_fifo_entries es'"
    and "at_path f cs r z = Some z'" and "no_fifo z"
  shows "no_fifo z'"
proof -
  have p: "at_parent f cs z1 = Some z2 \<Longrightarrow> no_fifo z1 \<Longrightarrow> no_fifo z2" for z1 z2
    using no_fifo_at_parent [where f = f and cs = cs and z = z1 and z' = z2] f by blast
  show ?thesis
  proof (cases r)
    case False
    with assms(2,3) p show ?thesis by (simp add: at_path_def)
  next
    case True
    with assms(2) obtain t where t: "at_parent f cs (top z) = Some t" "descend (cwd_names z) t = Some z'"
      by (auto simp: at_path_def split: option.splits)
    from p [OF t(1) no_fifo_top [OF assms(3)]] have "no_fifo t" .
    from no_fifo_descend [OF t(2) this] show ?thesis .
  qed
qed

lemma no_fifo_mkdir: "mkdir path z = Some z' \<Longrightarrow> no_fifo z \<Longrightarrow> no_fifo z'"
proof -
  have f: "\<And>c es es'. mkdir_entry c es = Some es' \<Longrightarrow> no_fifo_entries es \<Longrightarrow> no_fifo_entries es'"
    by (auto simp: mkdir_entry_def no_fifo_entries_append split: if_splits)
  show "mkdir path z = Some z' \<Longrightarrow> no_fifo z \<Longrightarrow> no_fifo z'"
    using no_fifo_at_path [where f = mkdir_entry and z = z and z' = z', OF f]
    by (auto simp: mkdir_def split: if_splits)
qed

lemma no_fifo_write_entry:
  "write_entry bytes c es = Some es' \<Longrightarrow> no_fifo_entries es \<Longrightarrow> no_fifo_entries es'"
  by (auto simp: write_entry_def no_fifo_entries_append no_fifo_update
      split: option.splits node.splits target.splits special.splits)

lemma no_fifo_write_file: "write_file path bytes z = Some z' \<Longrightarrow> no_fifo z \<Longrightarrow> no_fifo z'"
  using no_fifo_at_path [where f = "write_entry bytes" and z = z and z' = z', OF no_fifo_write_entry]
  by (auto simp: write_file_def split: if_splits)

lemma no_fifo_mkpath_from: "no_fifo z \<Longrightarrow> no_fifo (snd (mkpath_from tmp rest z))"
  by (induction tmp rest z rule: mkpath_from.induct)
    (auto split: option.splits dest: no_fifo_mkdir)

lemma no_fifo_chdir: "no_fifo z \<Longrightarrow> no_fifo (chdir_unchecked path z)"
  by (auto simp: chdir_unchecked_def chdir_def no_fifo_top split: option.splits if_splits
      dest: no_fifo_walk)

lemma next_block_from_error:
  "next_block_from i src outp delim max_reads = Inl e \<Longrightarrow> e \<noteq> Fopen_Blocks"
  by (induction i src outp delim max_reads rule: next_block_from.induct)
    (auto simp: store_def split: if_splits sum.splits)

lemma next_block_error: "next_block src outp delim max_reads \<noteq> Inl Fopen_Blocks"
  using next_block_from_error unfolding next_block_def by blast

lemma unpack_file_no_fifo:
  assumes "no_fifo (fsys s)"
  shows "unpack_file name s \<noteq> Inl Fopen_Blocks"
    and "unpack_file name s = Inr s' \<Longrightarrow> no_fifo (fsys s')"
  using assms no_fifo_fopen [of "fsys s" name] next_block_error
  by (auto simp: unpack_file_def split: sum.splits option.splits prod.splits
      dest: no_fifo_write_file)

lemma no_fifo_mkpath: "mkpath name z = (r, z') \<Longrightarrow> no_fifo z \<Longrightarrow> no_fifo z'"
  using no_fifo_mkpath_from [of z "[]" name] by (simp add: mkpath_def)

lemma unpack_frame_no_fifo:
  assumes "no_fifo (fsys s)"
  shows "unpack_frame s \<noteq> Inl Fopen_Blocks"
    and "unpack_frame s = Inr s' \<Longrightarrow> no_fifo (fsys s')"
proof -
  show "unpack_frame s \<noteq> Inl Fopen_Blocks"
    using assms unpack_file_no_fifo(1) next_block_error
    by (auto simp: unpack_frame_def Let_def split: sum.splits option.splits prod.splits if_splits)
  show "unpack_frame s = Inr s' \<Longrightarrow> no_fifo (fsys s')"
    using assms
    by (auto simp: unpack_frame_def Let_def no_fifo_chdir
        split: sum.splits option.splits prod.splits if_splits
        dest: no_fifo_mkpath unpack_file_no_fifo(2) [rotated])
qed

lemma unpack_loop_total: "no_fifo (fsys s) \<Longrightarrow> \<exists>r. unpack_loop s = Some r"
proof (induction "length (fp s)" arbitrary: s rule: less_induct)
  case less
  show ?case
  proof (cases "unpack_frame s")
    case (Inl e)
    with unpack_frame_no_fifo(1) [OF less.prems] show ?thesis
      by (subst unpack_loop.simps) auto
  next
    case (Inr s')
    note step = unpack_loop_step [OF Inr]
    show ?thesis
    proof (cases "fp s' = []")
      case True
      with step show ?thesis by simp
    next
      case False
      from unpack_frame_progress [OF Inr] False have "length (fp s') < length (fp s)"
        by (cases "fp s = []") auto
      from less(1) [OF this unpack_frame_no_fifo(2) [OF less.prems Inr]] step False
      show ?thesis by simp
    qed
  qed
qed

lemma unpack_loop_error:
  "unpack_frame s = Inl e \<Longrightarrow> e \<noteq> Fopen_Blocks \<Longrightarrow> unpack_loop s = Some (Inl e)"
  by (subst unpack_loop.simps) simp

lemma unpack_loop_blocks: "unpack_frame s = Inl Fopen_Blocks \<Longrightarrow> unpack_loop s = None"
  by (subst unpack_loop.simps) simp

lemma atoi_300: "atoi ''300'' = Some 300"
  by (simp add: atoi_def isspace_def isdigit_def INT_MIN_def INT_MAX_def)

lemma unpack_long_name:
  "unpack junk (''300:'' @ replicate 300 (CHR ''a'')) d z = Some (Inl (Out_Of_Bounds 255))"
proof -
  let ?s = "\<lparr>fp = ''300:'' @ replicate 300 (CHR ''a''), fn_buf = map junk [0 ..< NAME_MAX],
      buff = map junk [NAME_MAX ..< 2 * NAME_MAX], buffer = junk (2 * NAME_MAX),
      fsys = z, depth = d,
      ustdout = ''Contents of Extracted Archive:'' @ newline\<rparr>"
  have a: "next_block (fp ?s) (buff ?s) (CHR '':'') (int NAME_MAX)
      = Inr (replicate 300 (CHR ''a''), filled (buff ?s) 0 ''300'')"
    using next_block_delim [of "''300''" "buff ?s" "replicate 300 (CHR ''a'')"]
    by (simp add: NAME_MAX_def)
  have "c_str ''300'' = ''300''" by (simp add: c_str_def NUL_def)
  then have b: "atoi (c_str (filled (buff ?s) 0 ''300'')) = Some 300"
    by (simp add: c_str_filled_any atoi_300)
  have "block (replicate 300 (CHR ''a'')) (CHR '':'') 300 = replicate 300 (CHR ''a'')"
    by (simp add: block_def)
  then have c: "next_block (replicate 300 (CHR ''a'')) (fn_buf ?s) (CHR '':'') 300 = Inl (Out_Of_Bounds 255)"
    using next_block_general [of "fn_buf ?s" "replicate 300 (CHR ''a'')" "CHR '':''" 300]
    by (simp add: NAME_MAX_def)
  have "unpack_frame ?s = Inl (Out_Of_Bounds 255)"
    unfolding unpack_frame_def a using b c by simp
  from unpack_loop_error [OF this] show ?thesis by (simp add: unpack_def)
qed

lemma unpack_long_length_field:
  "unpack junk (replicate 255 (CHR ''1'')) d z = Some (Inl (Out_Of_Bounds 255))"
proof -
  let ?s = "\<lparr>fp = replicate 255 (CHR ''1''), fn_buf = map junk [0 ..< NAME_MAX],
      buff = map junk [NAME_MAX ..< 2 * NAME_MAX], buffer = junk (2 * NAME_MAX),
      fsys = z, depth = d,
      ustdout = ''Contents of Extracted Archive:'' @ newline\<rparr>"
  have "block (replicate 255 (CHR ''1'')) (CHR '':'') (int NAME_MAX) = replicate 255 (CHR ''1'')"
    by (simp add: block_def NAME_MAX_def)
  then have a: "next_block (fp ?s) (buff ?s) (CHR '':'') (int NAME_MAX) = Inl (Out_Of_Bounds 255)"
    using next_block_general [of "buff ?s" "replicate 255 (CHR ''1'')" "CHR '':''" "int NAME_MAX"]
    by (simp add: NAME_MAX_def)
  have "unpack_frame ?s = Inl (Out_Of_Bounds 255)"
    unfolding unpack_frame_def a by simp
  from unpack_loop_error [OF this] show ?thesis by (simp add: unpack_def)
qed

lemma unpack_empty:
  "\<exists>u. unpack junk [] d z = Some (Inr u) \<and> fp u = [] \<and> depth u = d - 1 \<and> fsys u = up z"
proof -
  let ?s = "\<lparr>fp = [], fn_buf = map junk [0 ..< NAME_MAX],
      buff = map junk [NAME_MAX ..< 2 * NAME_MAX], buffer = junk (2 * NAME_MAX),
      fsys = z, depth = d,
      ustdout = ''Contents of Extracted Archive:'' @ newline\<rparr>"
  have a: "next_block (fp ?s) (buff ?s) (CHR '':'') (int NAME_MAX) = Inr ([], filled (buff ?s) 0 [])"
    using next_block_general [of "buff ?s" "[]" "CHR '':''" "int NAME_MAX"]
    by (simp add: block_def after_block_def NAME_MAX_def)
  have "c_str [] = []" by (simp add: c_str_def)
  then have b: "atoi (c_str (filled (buff ?s) 0 [])) = Some 0"
    by (simp add: c_str_filled_any atoi_def INT_MIN_def INT_MAX_def)
  have c: "next_block [] (fn_buf ?s) (CHR '':'') 0 = Inr ([], filled (fn_buf ?s) 0 [])"
    using next_block_general [of "fn_buf ?s" "[]" "CHR '':''" 0]
    by (simp add: block_def after_block_def NAME_MAX_def)
  from unpack_frame_endI [OF a b c] unpack_loop_step [of ?s]
  show ?thesis by (simp add: unpack_def)
qed

lemma next_block_at_end:
  "next_block [] (map junk [0 ..< NAME_MAX]) delim max_reads = Inr ([], (map junk [0 ..< NAME_MAX])[0 := NUL])"
  by (simp add: next_block_def store_def NAME_MAX_def)

section \<open>The packer and its frames\<close>

lemma pack_outfp:
  "pack may_open fn node d s = Returned s' \<Longrightarrow> outfp s' = outfp s @ archive fn node"
  and pack_entries_outfp:
  "pack_entries may_open es d s = Returned s' \<Longrightarrow> outfp s' = outfp s @ archive_entries es"
proof (induction fn node and es arbitrary: d s s' and d s s' rule: entry_induct)
  case (Dir fn es)
  let ?s3 = "s\<lparr>stdout := stdout s @ indent d @ fn @ ''/'' @ newline,
      outfp := outfp s @ dec (length fn + 1) @ '':'' @ fn @ ''/'',
      cwd := chdir_lex fn (cwd s)\<rparr>"
  from Dir.prems obtain s4 where s4: "pack_entries may_open es d ?s3 = Returned s4"
    and s': "s' = s4\<lparr>outfp := outfp s4 @ ''0:'', cwd := chdir_lex ''..'' (cwd s4)\<rparr>"
    by (auto simp: Let_def split: if_splits pack_result.splits)
  from Dir.IH [OF s4] s' show ?case by (simp add: archive_Dir)
next
  case (Reg fn sz bytes)
  then show ?case by (auto simp: archive_def Let_def split: if_splits)
next
  case (Special fn k)
  then show ?case by (auto simp: archive_def)
next
  case (Symlink fn v)
  then show ?case by (cases v) (auto simp: archive_def Let_def split: if_splits)
next
  case Nil
  then show ?case by (simp add: archive_entries_def)
next
  case (Cons d_name child es)
  show ?case
  proof (cases "d_name = ''.'' \<or> d_name = ''..''")
    case True
    with Cons.prems Cons.IH(2) [of d s s'] show ?thesis by (auto simp: archive_entries_Cons)
  next
    case False
    with Cons.prems obtain s1 where s1: "pack may_open d_name child (d + 1) s = Returned s1"
      and rest: "pack_entries may_open es d s1 = Returned s'"
      by (auto split: pack_result.splits)
    from Cons.IH(1) [OF False s1] Cons.IH(2) [OF rest] False show ?thesis
      by (simp add: archive_entries_Cons)
  qed
qed


lemma pack_exited:
  "pack may_open fn node d s = Exited code s' \<Longrightarrow>
     \<exists>fs rest. frames fn node = fs @ rest \<and> outfp s' = outfp s @ concat (map render fs)"
  and pack_entries_exited:
  "pack_entries may_open es d s = Exited code s' \<Longrightarrow>
     \<exists>fs rest. frames_entries es = fs @ rest \<and> outfp s' = outfp s @ concat (map render fs)"
proof (induction fn node and es arbitrary: d s s' and d s s' rule: entry_induct)
  case (Dir fn es)
  let ?s3 = "s\<lparr>stdout := stdout s @ indent d @ fn @ ''/'' @ newline,
      outfp := outfp s @ dec (length fn + 1) @ '':'' @ fn @ ''/'',
      cwd := chdir_lex fn (cwd s)\<rparr>"
  show ?case
  proof (cases "may_open (cwd s) fn")
    case False
    with Dir.prems have "outfp s' = outfp s" by (auto simp: Let_def)
    then show ?thesis by (auto intro: exI [of _ "[]"])
  next
    case True
    with Dir.prems have "pack_entries may_open es d ?s3 = Exited code s'"
      by (auto simp: Let_def split: pack_result.splits)
    from Dir.IH [OF this] obtain fs rest where fs: "frames_entries es = fs @ rest"
      "outfp s' = outfp ?s3 @ concat (map render fs)" by auto
    then show ?thesis
      by (intro exI [of _ "Dir_Frame (length fn + 1) fn # fs"] exI [of _ "rest @ [End_Dir]"]) simp
  qed
next
  case (Reg fn sz bytes)
  then have "outfp s' = outfp s" by (auto simp: Let_def split: if_splits)
  then show ?case by (auto intro: exI [of _ "[]"])
next
  case (Special fn k)
  then show ?case by simp
next
  case (Symlink fn v)
  then have "outfp s' = outfp s" by (cases v) (auto simp: Let_def split: if_splits)
  then show ?case by (auto intro: exI [of _ "[]"])
next
  case Nil
  then show ?case by simp
next
  case (Cons d_name child es)
  show ?case
  proof (cases "d_name = ''.'' \<or> d_name = ''..''")
    case True
    with Cons.prems Cons.IH(2) [of d s s'] show ?thesis by auto
  next
    case False
    show ?thesis
    proof (cases "pack may_open d_name child (d + 1) s")
      case (Exited c1 s1)
      with Cons.prems False have e: "pack may_open d_name child (d + 1) s = Exited code s'" by simp
      from Cons.IH(1) [OF False e] obtain fs rest where "frames d_name child = fs @ rest"
        "outfp s' = outfp s @ concat (map render fs)" by auto
      with False show ?thesis
        by (intro exI [of _ fs] exI [of _ "rest @ frames_entries es"]) simp
    next
      case (Returned s1)
      with Cons.prems False have e: "pack_entries may_open es d s1 = Exited code s'" by simp
      from Cons.IH(2) [OF e] obtain fs rest where fs: "frames_entries es = fs @ rest"
        "outfp s' = outfp s1 @ concat (map render fs)" by auto
      from pack_outfp [OF Returned] have "outfp s1 = outfp s @ concat (map render (frames d_name child))"
        by (simp add: archive_def)
      with fs False show ?thesis
        by (intro exI [of _ "frames d_name child @ fs"] exI [of _ rest]) simp
    qed
  qed
qed

lemma frames_faithful:
  "sized node \<Longrightarrow> \<forall>f \<in> set (frames fn node). faithful f"
  and frames_entries_faithful:
  "sized_entries es \<Longrightarrow> \<forall>f \<in> set (frames_entries es). faithful f"
  by (induction fn node and es rule: entry_induct) auto

lemma frames_name_lengths:
  "\<forall>f \<in> set (frames fn node).
     (case f of Dir_Frame n name \<Rightarrow> n = length name + 1
              | File_Frame n name m bytes \<Rightarrow> n = length name
              | End_Dir \<Rightarrow> True)"
  and frames_entries_name_lengths:
  "\<forall>f \<in> set (frames_entries es).
     (case f of Dir_Frame n name \<Rightarrow> n = length name + 1
              | File_Frame n name m bytes \<Rightarrow> n = length name
              | End_Dir \<Rightarrow> True)"
  by (induction fn node and es rule: entry_induct) auto

lemma frames_declared:
  "fn \<noteq> [] \<Longrightarrow> named node \<Longrightarrow>
     \<forall>f \<in> set (frames fn node).
       (case f of Dir_Frame n name \<Rightarrow> 2 \<le> n | File_Frame n name m bytes \<Rightarrow> 1 \<le> n | End_Dir \<Rightarrow> True)"
  and frames_entries_declared:
  "named_entries es \<Longrightarrow>
     \<forall>f \<in> set (frames_entries es).
       (case f of Dir_Frame n name \<Rightarrow> 2 \<le> n | File_Frame n name m bytes \<Rightarrow> 1 \<le> n | End_Dir \<Rightarrow> True)"
  by (induction fn node and es rule: entry_induct) (auto simp: Suc_le_eq split: option.splits)

lemma length_field_dec:
  "length_field (Dir_Frame n name) = dec n" "length_field (File_Frame n name m bytes) = dec n"
  "length_field End_Dir = ''0''"
proof -
  have "\<And>ys. takeWhile (\<lambda>c. c \<noteq> CHR '':'') (dec n @ CHR '':'' # ys) = dec n"
    using dec_no_colon [of n] by (auto simp: takeWhile_tail)
  then show "length_field (Dir_Frame n name) = dec n"
    "length_field (File_Frame n name m bytes) = dec n"
    by (simp_all add: length_field_def)
  show "length_field End_Dir = ''0''" by (simp add: length_field_def)
qed

lemma atoi_zero: "atoi ''0'' = Some 0"
  by (simp add: atoi_def isspace_def isdigit_def INT_MIN_def INT_MAX_def)

lemma atoi_dec_zero: "atoi (dec n) = Some 0 \<longleftrightarrow> n = 0"
  by (simp add: atoi_dec INT_MAX_def)

lemma sentinel_discriminates:
  assumes "case f of Dir_Frame n name \<Rightarrow> 2 \<le> n | File_Frame n name m bytes \<Rightarrow> 1 \<le> n | End_Dir \<Rightarrow> True"
  shows "atoi (length_field f) = Some 0 \<longleftrightarrow> f = End_Dir"
  using assms by (cases f) (auto simp: length_field_dec atoi_dec_zero atoi_zero)

lemma chdir_lex_component: "component c \<Longrightarrow> chdir_lex c wd = wd @ [c]"
  by (cases c) (auto simp: chdir_lex_def component_def split_path_no_slash is_abs_def chdir_step_def)

lemma chdir_lex_dotdot: "chdir_lex ''..'' wd = butlast wd"
  by (simp add: chdir_lex_def is_abs_def chdir_step_def)

lemma pack_restores_cwd:
  "pack may_open fn node d s = Returned s' \<Longrightarrow> component fn \<Longrightarrow> component_names node \<Longrightarrow>
     cwd s' = cwd s"
  and pack_entries_restores_cwd:
  "pack_entries may_open es d s = Returned s' \<Longrightarrow> component_names_entries es \<Longrightarrow> cwd s' = cwd s"
proof (induction fn node and es arbitrary: d s s' and d s s' rule: entry_induct)
  case (Dir fn es)
  let ?s3 = "s\<lparr>stdout := stdout s @ indent d @ fn @ ''/'' @ newline,
      outfp := outfp s @ dec (length fn + 1) @ '':'' @ fn @ ''/'',
      cwd := chdir_lex fn (cwd s)\<rparr>"
  from Dir.prems obtain s4 where s4: "pack_entries may_open es d ?s3 = Returned s4"
    and s': "s' = s4\<lparr>outfp := outfp s4 @ ''0:'', cwd := chdir_lex ''..'' (cwd s4)\<rparr>"
    by (auto simp: Let_def split: if_splits pack_result.splits)
  from Dir.IH [OF s4] Dir.prems s' show ?case
    by (simp add: chdir_lex_component chdir_lex_dotdot)
next
  case (Cons d_name child es)
  show ?case
  proof (cases "d_name = ''.'' \<or> d_name = ''..''")
    case True
    with Cons.prems Cons.IH(2) [of d s s'] show ?thesis by auto
  next
    case False
    with Cons.prems obtain s1 where s1: "pack may_open d_name child (d + 1) s = Returned s1"
      and rest: "pack_entries may_open es d s1 = Returned s'"
      by (auto split: pack_result.splits)
    from Cons.IH(1) [OF False s1] Cons.IH(2) [OF rest] False Cons.prems show ?thesis
      by simp
  qed
next
  case (Symlink fn v)
  then show ?case by (cases v) (auto simp: Let_def split: if_splits)
qed (auto simp: Let_def split: if_splits)

lemma dec_small: "n < 10 \<Longrightarrow> dec n = [digit_char n]"
  by (simp add: dec.simps)

lemma pack_nested_path:
  "pack (\<lambda>wd n. True) ''a/b'' (Dir []) d \<lparr>outfp = [], stdout = [], stderr = [], cwd = wd\<rparr>
     = Returned \<lparr>outfp = ''4:a/b/0:'', stdout = indent d @ ''a/b/'' @ newline, stderr = [],
                 cwd = wd @ [''a'']\<rparr>"
  by (simp add: Let_def chdir_lex_def is_abs_def chdir_step_def dec_small digit_char_def butlast_append)

lemma pack_dot:
  "pack (\<lambda>wd n. True) ''.'' (Dir []) d \<lparr>outfp = [], stdout = [], stderr = [], cwd = wd\<rparr>
     = Returned \<lparr>outfp = ''2:./0:'', stdout = indent d @ ''./'' @ newline, stderr = [],
                 cwd = butlast wd\<rparr>"
  by (simp add: Let_def chdir_lex_def is_abs_def chdir_step_def dec_small digit_char_def)


lemma extracted_entries_append:
  "extracted_entries (xs @ ys) = extracted_entries xs @ extracted_entries ys"
  by (induction xs) auto





section \<open>Unpacking what was packed\<close>



text \<open>A file named a:b in the archive: the name read ends at the colon.\<close>

lemma atoi_3: "atoi ''3'' = Some 3"
  by (simp add: atoi_def isspace_def isdigit_def INT_MIN_def INT_MAX_def)

lemma atoi_b2: "atoi ''b2'' = Some 0"
  by (simp add: atoi_def isspace_def isdigit_def INT_MIN_def INT_MAX_def)

lemma atoi_hi0: "atoi ''hi0'' = Some 0"
  by (simp add: atoi_def isspace_def isdigit_def INT_MIN_def INT_MAX_def)

lemma frame_misread:
  assumes ok: "arrays_ok s" and inp: "fp s = ''3:a:b2:'' @ rest"
    and fresh: "map_of (here (fsys s)) ''a'' = None"
  shows "\<exists>s'. unpack_frame s = Inr s' \<and> fp s' = rest \<and> arrays_ok s' \<and> depth s' = depth s \<and>
      fsys s' = (fsys s)\<lparr>here := here (fsys s) @ [(''a'', Reg 0 [])]\<rparr>"
proof -
  let ?z = "fsys s"
  let ?buff1 = "filled (buff s) 0 ''3''"
  have pn: "plain_name ''a''" by (simp add: plain_name_def component_def NUL_def)
  have a: "next_block (fp s) (buff s) (CHR '':'') (int NAME_MAX) = Inr (''a:b2:'' @ rest, ?buff1)"
    using ok inp next_block_delim [of "''3''" "buff s" "''a:b2:'' @ rest"]
    by (simp add: arrays_ok_def NAME_MAX_def)
  have b: "atoi (c_str ?buff1) = Some 3"
    by (simp add: c_str_filled NUL_def atoi_3)
  have c: "next_block (''a:b2:'' @ rest) (fn_buf s) (CHR '':'') 3 = Inr (''b2:'' @ rest, filled (fn_buf s) 0 ''a'')"
    using ok next_block_from_delim [of "CHR '':''" "''a''" 0 "fn_buf s" 3 "''b2:'' @ rest"]
    by (simp add: next_block_def arrays_ok_def NAME_MAX_def)
  have d: "c_str (filled (fn_buf s) 0 ''a'') = ''a''"
    by (simp add: c_str_filled NUL_def)
  have len1: "length ?buff1 = NAME_MAX"
    using ok by (simp add: arrays_ok_def length_filled NAME_MAX_def)
  have e: "next_block (''b2:'' @ rest) ?buff1 (CHR '':'') (int NAME_MAX) = Inr (rest, filled ?buff1 0 ''b2'')"
    using len1 next_block_delim [of "''b2''" ?buff1 rest] by (simp add: NAME_MAX_def)
  have f: "atoi (c_str (filled ?buff1 0 ''b2'')) = Some 0"
    by (simp add: c_str_filled NUL_def atoi_b2)
  have g: "write_file ''a'' [] ?z = Some (?z\<lparr>here := here ?z @ [(''a'', Reg 0 [])]\<rparr>)"
    using pn fresh write_file_plain_new [of "''a''" ?z "[]"] by simp
  have h: "copy_payload (nat 0) rest (buffer s) [] = (rest, buffer s, [])" by simp
  have nb: "\<not> fopen_blocks ''a'' ?z"
    using pn fresh by (rule fopen_blocks_new)
  have i: "write_file ''a'' [] (?z\<lparr>here := here ?z @ [(''a'', Reg 0 [])]\<rparr>)
      = Some (?z\<lparr>here := here ?z @ [(''a'', Reg 0 [])]\<rparr>)"
    using pn fresh write_file_plain_old [of "''a''" "?z\<lparr>here := here ?z @ [(''a'', Reg 0 [])]\<rparr>" 0 "[]" "[]"]
    by (simp add: map_of_snoc update_last del: map_of_append)
  have "unpack_frame s = Inr (s\<lparr>fp := rest, fn_buf := filled (fn_buf s) 0 ''a'',
      buff := filled ?buff1 0 ''b2'', buffer := buffer s,
      ustdout := ustdout s @ indent (depth s) @ ''a'' @ newline,
      fsys := ?z\<lparr>here := here ?z @ [(''a'', Reg 0 [])]\<rparr>\<rparr>)"
    by (rule unpack_frame_fileI [OF a b c _ d _ _ e f nb g h i]) simp_all
  moreover have "length (filled ?buff1 0 ''b2'') = NAME_MAX" "length (filled (fn_buf s) 0 ''a'') = NAME_MAX"
    using ok len1 by (simp_all add: arrays_ok_def length_filled NAME_MAX_def)
  ultimately show ?thesis by (simp add: arrays_ok_def)
qed

text \<open>The bytes hi0: read as a frame: a length field that is no number counts as 0.\<close>

lemma frame_garbage_sentinel:
  assumes ok: "arrays_ok s" and inp: "fp s = ''hi0:'' @ rest"
  shows "\<exists>s'. unpack_frame s = Inr s' \<and> fp s' = rest \<and> arrays_ok s' \<and> depth s' = depth s - 1 \<and>
      fsys s' = up (fsys s)"
proof -
  have a: "next_block (fp s) (buff s) (CHR '':'') (int NAME_MAX) = Inr (rest, filled (buff s) 0 ''hi0'')"
    using ok inp next_block_delim [of "''hi0''" "buff s" rest]
    by (simp add: arrays_ok_def NAME_MAX_def)
  have b: "atoi (c_str (filled (buff s) 0 ''hi0'')) = Some 0"
    by (simp add: c_str_filled NUL_def atoi_hi0)
  have c: "next_block rest (fn_buf s) (CHR '':'') 0 = Inr (rest, filled (fn_buf s) 0 [])"
    using ok next_block_limit [of "[]" "fn_buf s" rest] by (simp add: arrays_ok_def NAME_MAX_def)
  from unpack_frame_endI [OF a b c] ok show ?thesis
    by (simp add: arrays_ok_def length_filled NAME_MAX_def)
qed

lemma frame_end_ex:
  assumes "arrays_ok s" "fp s = ''0:'' @ rest"
  shows "\<exists>s'. unpack_frame s = Inr s' \<and> fp s' = rest \<and> arrays_ok s' \<and> depth s' = depth s - 1 \<and>
      fsys s' = up (fsys s)"
  using frame_end [OF assms] assms(1) by (simp add: arrays_ok_def length_filled NAME_MAX_def)

lemma frame_dir_x:
  assumes ok: "arrays_ok s" and inp: "fp s = ''2:x/'' @ rest"
    and fresh: "map_of (here (fsys s)) ''x'' = None"
  shows "\<exists>s'. unpack_frame s = Inr s' \<and> fp s' = rest \<and> arrays_ok s' \<and> depth s' = depth s + 1 \<and>
      fsys s' = \<lparr>here = [], above = (here (fsys s), ''x'', []) # above (fsys s)\<rparr>"
proof -
  have pn: "plain_name ''x''" by (simp add: plain_name_def component_def NUL_def)
  have l: "length ''x'' + 1 < NAME_MAX" by (simp add: NAME_MAX_def)
  have i: "fp s = dec (length ''x'' + 1) @ '':'' @ ''x'' @ ''/'' @ rest"
    using inp by (simp add: dec_small digit_char_def)
  from frame_dir [OF ok pn l fresh i] ok show ?thesis
    by (simp add: arrays_ok_def length_filled NAME_MAX_def dec_small)
qed

lemma unpack_colon_name:
  assumes fresh: "map_of (here z) ''x'' = None"
  shows "\<exists>u. unpack junk ''2:x/3:a:b2:hi0:'' d z = Some (Inr u) \<and> fp u = [] \<and> depth u = d \<and>
              fsys u = z\<lparr>here := here z @ [(''x'', Dir [(''a'', Reg 0 [])])]\<rparr>"
proof -
  let ?s0 = "\<lparr>fp = ''2:x/3:a:b2:hi0:'', fn_buf = map junk [0 ..< NAME_MAX],
      buff = map junk [NAME_MAX ..< 2 * NAME_MAX], buffer = junk (2 * NAME_MAX),
      fsys = z, depth = d,
      ustdout = ''Contents of Extracted Archive:'' @ newline\<rparr>"
  have ok0: "arrays_ok ?s0" by (rule arrays_ok_initial)
  obtain s1 where s1: "unpack_frame ?s0 = Inr s1" "fp s1 = ''3:a:b2:hi0:''" "arrays_ok s1"
      "depth s1 = d + 1" "fsys s1 = \<lparr>here = [], above = (here z, ''x'', []) # above z\<rparr>"
    using frame_dir_x [OF ok0, of "''3:a:b2:hi0:''"] fresh by auto
  obtain s2 where s2: "unpack_frame s1 = Inr s2" "fp s2 = ''hi0:''" "arrays_ok s2"
      "depth s2 = d + 1" "fsys s2 = \<lparr>here = [(''a'', Reg 0 [])], above = (here z, ''x'', []) # above z\<rparr>"
    using frame_misread [OF s1(3), of "''hi0:''"] s1 by auto
  obtain s3 where s3: "unpack_frame s2 = Inr s3" "fp s3 = []" "depth s3 = d"
      "fsys s3 = z\<lparr>here := here z @ [(''x'', Dir [(''a'', Reg 0 [])])]\<rparr>"
    using frame_garbage_sentinel [OF s2(3), of "[]"] s2 by (auto simp: up_def)
  have "unpack_loop ?s0 = unpack_loop s1" using unpack_loop_step [OF s1(1)] s1(2) by simp
  also have "\<dots> = unpack_loop s2" using unpack_loop_step [OF s2(1)] s2(2) by simp
  also have "\<dots> = Some (Inr s3)" using unpack_loop_step [OF s3(1)] s3(2) by simp
  finally show ?thesis using s3 by (simp add: unpack_def)
qed

lemma unpack_colon_name_sentinel:
  assumes fresh: "map_of (here z) ''x'' = None"
  shows "\<exists>u. unpack junk ''2:x/3:a:b2:0:0:'' d z = Some (Inr u) \<and> fp u = [] \<and> depth u = d - 1 \<and>
              fsys u = up (z\<lparr>here := here z @ [(''x'', Dir [(''a'', Reg 0 [])])]\<rparr>)"
proof -
  let ?s0 = "\<lparr>fp = ''2:x/3:a:b2:0:0:'', fn_buf = map junk [0 ..< NAME_MAX],
      buff = map junk [NAME_MAX ..< 2 * NAME_MAX], buffer = junk (2 * NAME_MAX),
      fsys = z, depth = d,
      ustdout = ''Contents of Extracted Archive:'' @ newline\<rparr>"
  have ok0: "arrays_ok ?s0" by (rule arrays_ok_initial)
  obtain s1 where s1: "unpack_frame ?s0 = Inr s1" "fp s1 = ''3:a:b2:0:0:''" "arrays_ok s1"
      "depth s1 = d + 1" "fsys s1 = \<lparr>here = [], above = (here z, ''x'', []) # above z\<rparr>"
    using frame_dir_x [OF ok0, of "''3:a:b2:0:0:''"] fresh by auto
  obtain s2 where s2: "unpack_frame s1 = Inr s2" "fp s2 = ''0:0:''" "arrays_ok s2"
      "depth s2 = d + 1" "fsys s2 = \<lparr>here = [(''a'', Reg 0 [])], above = (here z, ''x'', []) # above z\<rparr>"
    using frame_misread [OF s1(3), of "''0:0:''"] s1 by auto
  obtain s3 where s3: "unpack_frame s2 = Inr s3" "fp s3 = ''0:''" "arrays_ok s3" "depth s3 = d"
      "fsys s3 = z\<lparr>here := here z @ [(''x'', Dir [(''a'', Reg 0 [])])]\<rparr>"
    using frame_end_ex [OF s2(3), of "''0:''"] s2 by (auto simp: up_def)
  obtain s4 where s4: "unpack_frame s3 = Inr s4" "fp s4 = []" "depth s4 = d - 1"
      "fsys s4 = up (z\<lparr>here := here z @ [(''x'', Dir [(''a'', Reg 0 [])])]\<rparr>)"
    using frame_end_ex [OF s3(3), of "[]"] s3 by auto
  have "unpack_loop ?s0 = unpack_loop s1" using unpack_loop_step [OF s1(1)] s1(2) by simp
  also have "\<dots> = unpack_loop s2" using unpack_loop_step [OF s2(1)] s2(2) by simp
  also have "\<dots> = unpack_loop s3" using unpack_loop_step [OF s3(1)] s3(2) by simp
  also have "\<dots> = Some (Inr s4)" using unpack_loop_step [OF s4(1)] s4(2) by simp
  finally show ?thesis using s4 by (simp add: unpack_def)
qed

lemma pack_colon_name:
  "pack (\<lambda>wd n. True) ''x'' (Dir [(''a:b'', Reg sz bytes)]) 1 \<lparr>outfp = [], stdout = [], stderr = [], cwd = []\<rparr>
     = Returned \<lparr>outfp = ''2:x/3:a:b'' @ dec sz @ '':'' @ bytes @ ''0:'',
                 stdout = indent 1 @ ''x/'' @ newline @ indent 2 @ ''a:b'' @ newline, stderr = [], cwd = []\<rparr>"
  by (simp add: Let_def dec_small digit_char_def chdir_lex_def is_abs_def chdir_step_def)

lemma fits_entries_append: "fits_entries (xs @ ys) = (fits_entries xs \<and> fits_entries ys)"
  by (induction xs) auto

lemma unpack_nested_path:
  "\<exists>u. unpack junk ''4:a/b/0:'' d \<lparr>here = [], above = []\<rparr> = Some (Inr u) \<and> fp u = [] \<and>
       depth u = d \<and> fsys u = \<lparr>here = [(''b'', Dir [])], above = [([], ''a'', [])]\<rparr>"
proof -
  let ?z = "\<lparr>here = [], above = []\<rparr>"
  let ?s0 = "\<lparr>fp = ''4:a/b/0:'', fn_buf = map junk [0 ..< NAME_MAX],
      buff = map junk [NAME_MAX ..< 2 * NAME_MAX], buffer = junk (2 * NAME_MAX),
      fsys = ?z, depth = d,
      ustdout = ''Contents of Extracted Archive:'' @ newline\<rparr>"
  have ok0: "arrays_ok ?s0" by (rule arrays_ok_initial)
  have a: "next_block (fp ?s0) (buff ?s0) (CHR '':'') (int NAME_MAX) = Inr (''a/b/0:'', filled (buff ?s0) 0 ''4'')"
    using next_block_delim [of "''4''" "buff ?s0" "''a/b/0:''"] by (simp add: NAME_MAX_def)
  have b: "atoi (c_str (filled (buff ?s0) 0 ''4'')) = Some 4"
    by (simp add: c_str_filled NUL_def atoi_def isspace_def isdigit_def INT_MIN_def INT_MAX_def)
  have c: "next_block ''a/b/0:'' (fn_buf ?s0) (CHR '':'') 4 = Inr (''0:'', filled (fn_buf ?s0) 0 ''a/b/'')"
    using next_block_limit [of "''a/b/''" "fn_buf ?s0" "''0:''"] by (simp add: NAME_MAX_def)
  have n: "c_str (filled (fn_buf ?s0) 0 ''a/b/'') = ''a/b/''"
    by (simp add: c_str_filled NUL_def)
  have m: "mkpath ''a/b/'' ?z = (0, \<lparr>here = [(''a'', Dir [(''b'', Dir [])])], above = []\<rparr>)"
    by (simp add: mkpath_def stat_def mkdir_def is_abs_def at_path_def strip_slashes_def
        mkdir_entry_def down_def up_def)
  have ch: "chdir_unchecked ''a/b/'' \<lparr>here = [(''a'', Dir [(''b'', Dir [])])], above = []\<rparr>
      = \<lparr>here = [], above = [([], ''b'', []), ([], ''a'', [])]\<rparr>"
    by (simp add: chdir_unchecked_def chdir_def is_abs_def down_def)
  have f1: "unpack_frame ?s0 = Inr (?s0\<lparr>fp := ''0:'', fn_buf := filled (fn_buf ?s0) 0 ''a/b/'',
      buff := filled (buff ?s0) 0 ''4'',
      ustdout := ustdout ?s0 @ indent (depth ?s0) @ ''a/b/'' @ newline,
      fsys := \<lparr>here = [], above = [([], ''b'', []), ([], ''a'', [])]\<rparr>, depth := depth ?s0 + 1\<rparr>)"
    by (rule unpack_frame_dirI [OF a b c _ n _ _ _ ch]) (simp_all add: m)
  let ?s1 = "?s0\<lparr>fp := ''0:'', fn_buf := filled (fn_buf ?s0) 0 ''a/b/'',
      buff := filled (buff ?s0) 0 ''4'',
      ustdout := ustdout ?s0 @ indent (depth ?s0) @ ''a/b/'' @ newline,
      fsys := \<lparr>here = [], above = [([], ''b'', []), ([], ''a'', [])]\<rparr>, depth := depth ?s0 + 1\<rparr>"
  have ok1: "arrays_ok ?s1" by (simp add: arrays_ok_def length_filled NAME_MAX_def)
  obtain s2 where s2: "unpack_frame ?s1 = Inr s2" "fp s2 = []" "depth s2 = d"
      "fsys s2 = \<lparr>here = [(''b'', Dir [])], above = [([], ''a'', [])]\<rparr>"
    using frame_end_ex [OF ok1, of "[]"] by (auto simp: up_def)
  have "unpack_loop ?s0 = unpack_loop ?s1" using unpack_loop_step [OF f1] by simp
  also have "\<dots> = Some (Inr s2)" using unpack_loop_step [OF s2(1)] s2(2) by simp
  finally show ?thesis using s2 by (simp add: unpack_def)
qed

section \<open>Creating directories\<close>

lemma path_of_Nil: "path_of [] = []" and path_of_Cons: "path_of (c # cs) = c @ ''/'' @ path_of cs"
  and path_of_snoc: "path_of (cs @ [c]) = path_of cs @ c @ ''/''"
  by (simp_all add: path_of_def)

lemma mkpath_from_component:
  assumes "CHR ''/'' \<notin> set c"
  shows "mkpath_from tmp (c @ CHR ''/'' # rest) z =
     (case stat (tmp @ c) z of
        None \<Rightarrow>
          (case mkdir (tmp @ c) z of
             None \<Rightarrow> (- 1, z)
           | Some z' \<Rightarrow> mkpath_from (tmp @ c @ ''/'') rest z')
      | Some st \<Rightarrow>
          if st_mode st \<noteq> S_IFDIR then (- 1, z)
          else mkpath_from (tmp @ c @ ''/'') rest z)"
proof -
  have "mkpath_from tmp (c @ CHR ''/'' # rest) z = mkpath_from (tmp @ c) (CHR ''/'' # rest) z"
    by (rule mkpath_from_no_slash [OF assms])
  also have "\<dots> = (case stat (tmp @ c) z of
        None \<Rightarrow>
          (case mkdir (tmp @ c) z of
             None \<Rightarrow> (- 1, z)
           | Some z' \<Rightarrow> mkpath_from (tmp @ c @ ''/'') rest z')
      | Some st \<Rightarrow>
          if st_mode st \<noteq> S_IFDIR then (- 1, z)
          else mkpath_from (tmp @ c @ ''/'') rest z)"
    by (simp split: option.splits)
  finally show ?thesis .
qed

lemma split_path_path_of:
  "list_all component pre \<Longrightarrow> component c \<Longrightarrow> split_path (path_of pre @ c) = pre @ [c]"
  by (induction pre) (simp_all add: path_of_def component_def split_path_no_slash split_path_append_slash)

lemma path_of_not_abs:
  "list_all component pre \<Longrightarrow> component c \<Longrightarrow> \<not> is_abs (path_of pre @ c) \<and> path_of pre @ c \<noteq> []"
proof (cases pre)
  case Nil
  assume "component c"
  with Nil show ?thesis by (cases c) (auto simp: path_of_def component_def is_abs_def)
next
  case (Cons p ps)
  assume "list_all component pre"
  with Cons show ?thesis by (cases p) (auto simp: path_of_def component_def is_abs_def)
qed

lemma strip_slashes_snoc: "c \<noteq> [] \<Longrightarrow> strip_slashes (pre @ [c]) = pre @ [c]"
  by (simp add: strip_slashes_def)

lemma stat_path_of:
  "list_all component pre \<Longrightarrow> component c \<Longrightarrow>
     stat (path_of pre @ c) z = map_option stat_of (look (pre @ [c]) z)"
  using path_of_not_abs [of pre c] by (auto simp: stat_def split_path_path_of)

lemma mkdir_path_of:
  "list_all component pre \<Longrightarrow> component c \<Longrightarrow>
     mkdir (path_of pre @ c) z = at_parent mkdir_entry (pre @ [c]) z"
  using path_of_not_abs [of pre c]
  by (simp add: mkdir_def split_path_path_of at_path_def strip_slashes_snoc component_def)

lemma look_down:
  "component c \<Longrightarrow> down c z = Some zc \<Longrightarrow> look (c # cs) z = look cs zc"
  by (auto simp: component_def down_def split: option.splits node.splits)

lemma at_parent_down:
  "component c \<Longrightarrow> down c z = Some zc \<Longrightarrow> cs \<noteq> [] \<Longrightarrow>
     at_parent f (c # cs) z = map_option up (at_parent f cs zc)"
  by (cases cs) (auto simp: component_def split: option.splits)

lemma down_above:
  "down n z = Some zc \<Longrightarrow>
     \<exists>before after. above zc = (before, n, after) # above z \<and> map_of before n = None"
proof -
  have "map_of (takeWhile (\<lambda>e. fst e \<noteq> n) es) n = None" for es :: entries
    by (induction es) auto
  moreover assume "down n z = Some zc"
  ultimately show ?thesis by (auto simp: down_def split: option.splits node.splits)
qed

lemma at_parent_above:
  "list_all component cs \<Longrightarrow> at_parent f cs z = Some z' \<Longrightarrow> above z' = above z"
proof (induction f cs z arbitrary: z' rule: at_parent.induct)
  case (1 f z)
  then show ?case by simp
next
  case (2 f c z)
  then show ?case by (auto split: if_splits option.splits)
next
  case (3 f c d cs z)
  from "3.prems" have c: "component c" and rest: "list_all component (d # cs)" by simp_all
  from c have nd: "\<not> (c = [] \<or> c = ''.'')" "c \<noteq> ''..''" by (auto simp: component_def)
  from "3.prems" nd obtain z1 z2 where z1: "down c z = Some z1"
    and z2: "at_parent f (d # cs) z1 = Some z2" and z': "z' = up z2"
    by (auto split: option.splits)
  from "3.IH"(4) [OF nd z1 rest z2] have "above z2 = above z1" .
  with down_above [OF z1] z' show ?case by (auto simp: up_def)
qed

lemma down_up:
  assumes "above zc = (before, n, after) # rest" "map_of before n = None"
  shows "down n (up zc) = Some zc"
proof -
  have "up zc = \<lparr>here = before @ (n, Dir (here zc)) # after, above = rest\<rparr>"
    using assms by (simp add: up_def)
  moreover have "down n (\<lparr>here = [], above = rest\<rparr>\<lparr>here := before @ (n, Dir (here zc)) # after\<rparr>)
      = Some \<lparr>here = here zc, above = (before, n, after) # rest\<rparr>"
    using assms(2) down_fresh [where es = before and n = n and z = "\<lparr>here = [], above = rest\<rparr>"
        and d = "here zc" and after = after] by simp
  ultimately show ?thesis using assms(1) by simp
qed

lemma split_at_key:
  "map_of es n = Some v \<Longrightarrow>
     takeWhile (\<lambda>e. fst e \<noteq> n) es @ (n, v) # tl (dropWhile (\<lambda>e. fst e \<noteq> n) es) = es"
  by (induction es) (auto split: if_splits)

lemma update_at_key:
  "map_of es n = Some v \<Longrightarrow>
     AList.update n w es = takeWhile (\<lambda>e. fst e \<noteq> n) es @ (n, w) # tl (dropWhile (\<lambda>e. fst e \<noteq> n) es)"
  by (induction es) (auto split: if_splits)

lemma up_down:
  assumes "down n z = Some zc"
  shows "up zc = z"
proof -
  from assms obtain es where es: "map_of (here z) n = Some (Dir es)"
    and zc: "zc = \<lparr>here = es, above = (takeWhile (\<lambda>e. fst e \<noteq> n) (here z), n,
                         tl (dropWhile (\<lambda>e. fst e \<noteq> n) (here z))) # above z\<rparr>"
    by (auto simp: down_def split: option.splits node.splits)
  show ?thesis using split_at_key [OF es] by (simp add: zc up_def)
qed

lemma up_down_changed:
  assumes "down n z = Some zc"
  shows "up (zc\<lparr>here := es'\<rparr>) = z\<lparr>here := AList.update n (Dir es') (here z)\<rparr>"
proof -
  from assms obtain es where es: "map_of (here z) n = Some (Dir es)"
    and zc: "zc = \<lparr>here = es, above = (takeWhile (\<lambda>e. fst e \<noteq> n) (here z), n,
                         tl (dropWhile (\<lambda>e. fst e \<noteq> n) (here z))) # above z\<rparr>"
    by (auto simp: down_def split: option.splits node.splits)
  show ?thesis using update_at_key [OF es, of "Dir es'"] by (simp add: zc up_def)
qed

lemma mkpath_from_shift:
  assumes "component c0" "above zc = (before, c0, after) # rest" "map_of before c0 = None"
    and "list_all component pre" "list_all component cs"
  shows "mkpath_from (c0 @ ''/'' @ path_of pre) (path_of cs) (up zc) =
     (case mkpath_from (path_of pre) (path_of cs) zc of (r, zc') \<Rightarrow> (r, up zc'))"
  using assms(2,4,5)
proof (induction cs arbitrary: pre zc)
  case Nil
  then show ?case by (simp add: path_of_Nil)
next
  case (Cons c cs)
  from Cons.prems have c: "component c" and cs: "list_all component cs" by simp_all
  from c have noslash: "CHR ''/'' \<notin> set c" by (simp add: component_def)
  have pre0: "list_all component (c0 # pre)" using assms(1) Cons.prems by simp
  have pre1: "list_all component (pre @ [c])" using c Cons.prems by simp
  have du: "down c0 (up zc) = Some zc" using Cons.prems(1) assms(3) by (rule down_up)
  define t where "t = c0 @ ''/'' @ path_of pre"
  define p where "p = path_of pre"
  define q where "q = path_of cs"
  have tmp: "t = path_of (c0 # pre)" by (simp add: t_def path_of_Cons)
  have st: "stat (t @ c) (up zc) = stat (p @ c) zc"
    using look_down [OF assms(1) du, of "pre @ [c]"]
    by (simp only: tmp p_def stat_path_of [OF pre0 c] stat_path_of [OF Cons.prems(2) c]) simp
  have mk: "mkdir (t @ c) (up zc) = map_option up (mkdir (p @ c) zc)"
    using at_parent_down [OF assms(1) du, of "pre @ [c]" mkdir_entry]
    by (simp only: tmp p_def mkdir_path_of [OF pre0 c] mkdir_path_of [OF Cons.prems(2) c]) simp
  have next_tmp: "t @ c @ ''/'' = c0 @ ''/'' @ path_of (pre @ [c])"
    by (simp add: t_def path_of_snoc)
  have next_pre: "p @ c @ ''/'' = path_of (pre @ [c])" by (simp add: p_def path_of_snoc)
  have same: "mkpath_from (t @ c @ ''/'') q (up zc) =
      (case mkpath_from (p @ c @ ''/'') q zc of (r, zc') \<Rightarrow> (r, up zc'))"
    unfolding next_tmp next_pre q_def using Cons.prems(1) pre1 cs by (rule Cons.IH)
  have created: "mkpath_from (t @ c @ ''/'') q (up z1) =
      (case mkpath_from (p @ c @ ''/'') q z1 of (r, zc') \<Rightarrow> (r, up zc'))"
    if "mkdir (p @ c) zc = Some z1" for z1
  proof -
    from that have "at_parent mkdir_entry (pre @ [c]) zc = Some z1"
      by (simp add: p_def mkdir_path_of [OF Cons.prems(2) c])
    from at_parent_above [OF pre1 this] Cons.prems(1)
    have "above z1 = (before, c0, after) # rest" by simp
    then show ?thesis unfolding next_tmp next_pre q_def using pre1 cs by (rule Cons.IH)
  qed
  have L: "mkpath_from t (c @ CHR ''/'' # q) (up zc) =
     (case stat (t @ c) (up zc) of
        None \<Rightarrow>
          (case mkdir (t @ c) (up zc) of
             None \<Rightarrow> (- 1, up zc)
           | Some z' \<Rightarrow> mkpath_from (t @ c @ ''/'') q z')
      | Some st \<Rightarrow>
          if st_mode st \<noteq> S_IFDIR then (- 1, up zc)
          else mkpath_from (t @ c @ ''/'') q (up zc))"
    by (rule mkpath_from_component [OF noslash])
  have R: "mkpath_from p (c @ CHR ''/'' # q) zc =
     (case stat (p @ c) zc of
        None \<Rightarrow>
          (case mkdir (p @ c) zc of
             None \<Rightarrow> (- 1, zc)
           | Some z' \<Rightarrow> mkpath_from (p @ c @ ''/'') q z')
      | Some st \<Rightarrow>
          if st_mode st \<noteq> S_IFDIR then (- 1, zc)
          else mkpath_from (p @ c @ ''/'') q zc)"
    by (rule mkpath_from_component [OF noslash])
  have "mkpath_from t (c @ CHR ''/'' # q) (up zc) =
      (case mkpath_from p (c @ CHR ''/'' # q) zc of (r, zc') \<Rightarrow> (r, up zc'))"
  proof (cases "stat (p @ c) zc")
    case None
    show ?thesis
    proof (cases "mkdir (p @ c) zc")
      case None
      with \<open>stat (p @ c) zc = None\<close> show ?thesis unfolding L R st mk by simp
    next
      case (Some z1)
      with \<open>stat (p @ c) zc = None\<close> created [OF Some] show ?thesis unfolding L R st mk by simp
    qed
  next
    case (Some s)
    with same show ?thesis unfolding L R st mk by simp
  qed
  then show ?case by (simp add: t_def p_def q_def path_of_Cons)
qed

lemma ensure_dirs_empty: "ensure_dirs cs [] = Some (new_dirs cs)"
  by (cases cs) simp_all

lemma look_component: "component c \<Longrightarrow> look [c] z = map_of (here z) c"
  by (rule look_single) (simp_all add: component_def)

lemma stat_component: "component c \<Longrightarrow> stat c z = map_option stat_of (map_of (here z) c)"
  using stat_path_of [of "[]" c z] by (simp add: path_of_Nil look_component del: look.simps)

lemma mkdir_component:
  "component c \<Longrightarrow> map_of (here z) c = None \<Longrightarrow>
     mkdir c z = Some (z\<lparr>here := here z @ [(c, Dir [])]\<rparr>)"
  using mkdir_path_of [of "[]" c z]
  by (auto simp: path_of_Nil component_def mkdir_entry_def map_of_eq_None_iff)

lemma mkpath_ensure:
  assumes "list_all component cs"
  shows "mkpath_from [] (path_of cs) z =
     (case ensure_dirs cs (here z) of
        None \<Rightarrow> (- 1, snd (mkpath_from [] (path_of cs) z))
      | Some es \<Rightarrow> (0, z\<lparr>here := es\<rparr>))"
  using assms
proof (induction cs arbitrary: z)
  case Nil
  then show ?case by (simp add: path_of_Nil)
next
  case (Cons c cs)
  from Cons.prems have c: "component c" and cs: "list_all component cs" by simp_all
  from c have noslash: "CHR ''/'' \<notin> set c" by (simp add: component_def)
  have step: "mkpath_from [] (path_of (c # cs)) z =
     (case stat c z of
        None \<Rightarrow>
          (case mkdir c z of
             None \<Rightarrow> (- 1, z)
           | Some z' \<Rightarrow> mkpath_from (c @ ''/'') (path_of cs) z')
      | Some st \<Rightarrow>
          if st_mode st \<noteq> S_IFDIR then (- 1, z)
          else mkpath_from (c @ ''/'') (path_of cs) z)"
    using mkpath_from_component [OF noslash, of "[]" "path_of cs" z]
    by (simp add: path_of_Cons split: option.splits)
  show ?case
  proof (cases "map_of (here z) c")
    case None
    let ?zc = "\<lparr>here = [], above = (here z, c, []) # above z\<rparr>"
    have up0: "up ?zc = z\<lparr>here := here z @ [(c, Dir [])]\<rparr>" by (simp add: up_def)
    have "mkpath_from [] (path_of (c # cs)) z
        = mkpath_from (c @ ''/'') (path_of cs) (up ?zc)"
      unfolding step using None c by (simp add: stat_component mkdir_component up0)
    also have "\<dots> = (case mkpath_from [] (path_of cs) ?zc of (r, zc') \<Rightarrow> (r, up zc'))"
      using mkpath_from_shift [where ?c0.0 = c and zc = ?zc and before = "here z" and after = "[]"
          and rest = "above z" and pre = "[]" and cs = cs] c None cs
      by (simp add: path_of_Nil)
    also have "\<dots> = (0, z\<lparr>here := here z @ [(c, Dir (new_dirs cs))]\<rparr>)"
      using Cons.IH [OF cs, of ?zc] by (simp add: ensure_dirs_empty up_def)
    finally show ?thesis using None by simp
  next
    case (Some n)
    show ?thesis
    proof (cases n)
      case (Dir sub)
      with Some obtain zc where zc: "down c z = Some zc" "here zc = sub"
        by (auto simp: down_def)
      from down_above [OF zc(1)] obtain before after
        where ab: "above zc = (before, c, after) # above z" "map_of before c = None" by auto
      have "mkpath_from [] (path_of (c # cs)) z = mkpath_from (c @ ''/'') (path_of cs) (up zc)"
        unfolding step using Some Dir c by (simp add: stat_component up_down [OF zc(1)])
      also have "\<dots> = (case mkpath_from [] (path_of cs) zc of (r, zc') \<Rightarrow> (r, up zc'))"
        using mkpath_from_shift [OF c ab, where pre = "[]" and cs = cs] cs by (simp add: path_of_Nil)
      finally have eq: "mkpath_from [] (path_of (c # cs)) z
          = (case mkpath_from [] (path_of cs) zc of (r, zc') \<Rightarrow> (r, up zc'))" .
      show ?thesis
      proof (cases "ensure_dirs cs sub")
        case None
        with Cons.IH [OF cs, of zc] zc(2) have "fst (mkpath_from [] (path_of cs) zc) = - 1"
          by (metis fst_conv option.simps(4))
        with eq have "fst (mkpath_from [] (path_of (c # cs)) z) = - 1"
          by (simp add: case_prod_beta)
        with None Some Dir show ?thesis by (simp add: prod_eq_iff)
      next
        case (Some sub')
        with Cons.IH [OF cs, of zc] zc(2)
        have "mkpath_from [] (path_of cs) zc = (0, zc\<lparr>here := sub'\<rparr>)" by simp
        with eq have "mkpath_from [] (path_of (c # cs)) z = (0, up (zc\<lparr>here := sub'\<rparr>))" by simp
        with Some \<open>map_of (here z) c = Some n\<close> Dir up_down_changed [OF zc(1), of sub']
        show ?thesis by simp
      qed
    next
      case (Reg sz bytes)
      with Some c show ?thesis unfolding step by (simp add: stat_component)
    next
      case (Special k)
      with Some c show ?thesis unfolding step by (simp add: stat_component)
    next
      case (Symlink v)
      with Some c show ?thesis unfolding step by (cases v) (simp_all add: stat_component)
    qed
  qed
qed

lemma mkpath_from_code: "fst (mkpath_from tmp rest z) = 0 \<or> fst (mkpath_from tmp rest z) = - 1"
  by (induction tmp rest z rule: mkpath_from.induct) (auto split: option.splits)

lemma mkpath_from_fails:
  "fst (mkpath_from tmp rest z) = - 1 \<Longrightarrow>
     \<exists>t r. tmp @ rest = t @ CHR ''/'' # r \<and>
       ((\<exists>st. stat t (snd (mkpath_from tmp rest z)) = Some st \<and> st_mode st \<noteq> S_IFDIR) \<or>
        (stat t (snd (mkpath_from tmp rest z)) = None \<and>
         mkdir t (snd (mkpath_from tmp rest z)) = None))"
proof (induction tmp rest z rule: mkpath_from.induct)
  case (1 tmp z)
  then show ?case by simp
next
  case (2 tmp c rest z)
  show ?case
  proof (cases "c = CHR ''/''")
    case False
    with "2.prems" "2.IH"(3) show ?thesis by simp
  next
    case True
    show ?thesis
    proof (cases "stat tmp z")
      case None
      show ?thesis
      proof (cases "mkdir tmp z")
        case None
        with \<open>stat tmp z = None\<close> True show ?thesis by (intro exI [of _ tmp] exI [of _ rest]) simp
      next
        case (Some z')
        with \<open>stat tmp z = None\<close> True "2.prems" "2.IH"(1) [OF True \<open>stat tmp z = None\<close> Some]
        show ?thesis by simp
      qed
    next
      case (Some st)
      show ?thesis
      proof (cases "st_mode st = S_IFDIR")
        case False
        with Some True show ?thesis by (intro exI [of _ tmp] exI [of _ rest]) simp
      next
        case dir: True
        with Some True "2.prems" "2.IH"(2) [OF True Some] show ?thesis by simp
      qed
    qed
  qed
qed

lemma mkpath_absolute: "is_abs pathname \<Longrightarrow> mkpath pathname z = (- 1, z)"
  by (cases pathname) (auto simp: is_abs_def mkpath_def stat_def mkdir_def)

lemma update_single: "AList.update c v [(c, w)] = [(c, v)]"
  by simp

lemma ensure_new_dirs: "ensure_dirs cs (new_dirs cs) = Some (new_dirs cs)"
  by (induction cs) simp_all

lemma ensure_dirs_idem:
  "ensure_dirs cs es = Some es' \<Longrightarrow> ensure_dirs cs es' = Some es'"
proof (induction cs arbitrary: es es')
  case Nil
  then show ?case by simp
next
  case (Cons c cs)
  show ?case
  proof (cases "map_of es c")
    case None
    with Cons.prems have es': "es' = es @ [(c, Dir (new_dirs cs))]" by simp
    with None show ?thesis
      by (simp add: map_of_snoc ensure_new_dirs update_last del: map_of_append)
  next
    case (Some n)
    with Cons.prems obtain sub sub' where n: "n = Dir sub" and s: "ensure_dirs cs sub = Some sub'"
      and es': "es' = AList.update c (Dir sub') es"
      by (auto split: node.splits option.splits)
    from Cons.IH [OF s] es' show ?thesis
      by (simp add: update_conv')
  qed
qed

section \<open>Frames that stop the unpacker, and a payload cut short\<close>

lemma unpack_frame_blocksI:
  assumes "next_block (fp s) (buff s) (CHR '':'') (int NAME_MAX) = Inr (fp1, buff1)"
    and "atoi (c_str buff1) = Some len"
    and "next_block fp1 (fn_buf s) (CHR '':'') len = Inr (fp2, fn1)"
    and "len \<noteq> 0" "c_str fn1 = name" "name \<noteq> []" "last name \<noteq> CHR ''/''"
    and "next_block fp2 buff1 (CHR '':'') (int NAME_MAX) = Inr (fp3, buff2)"
    and "atoi (c_str buff2) = Some flen"
    and "fopen_blocks name (fsys s)"
  shows "unpack_frame s = Inl Fopen_Blocks"
  using assms by (simp add: unpack_frame_def unpack_file_def Let_def)

lemma unpack_frame_mkpath_failsI:
  assumes "next_block (fp s) (buff s) (CHR '':'') (int NAME_MAX) = Inr (fp1, buff1)"
    and "atoi (c_str buff1) = Some len"
    and "next_block fp1 (fn_buf s) (CHR '':'') len = Inr (fp2, fn1)"
    and "len \<noteq> 0" "c_str fn1 = name" "name \<noteq> []" "last name = CHR ''/''"
    and "mkpath name (fsys s) = (r, z1)" "r \<noteq> 0"
  shows "unpack_frame s = Inl Mkpath_Failed"
  using assms by (simp add: unpack_frame_def Let_def)

lemma atoi_1: "atoi ''1'' = Some 1"
  by (simp add: atoi_def isspace_def isdigit_def INT_MIN_def INT_MAX_def)

lemma atoi_5: "atoi ''5'' = Some 5"
  by (simp add: atoi_def isspace_def isdigit_def INT_MIN_def INT_MAX_def)

text \<open>A file frame whose name leads to a FIFO that nobody reads.\<close>

lemma unpack_fifo:
  "unpack junk ''1:f0:'' d \<lparr>here = [(''f'', Special Fifo)], above = []\<rparr> = None"
proof -
  let ?z = "\<lparr>here = [(''f'', Special Fifo)], above = []\<rparr>"
  let ?s = "\<lparr>fp = ''1:f0:'', fn_buf = map junk [0 ..< NAME_MAX],
      buff = map junk [NAME_MAX ..< 2 * NAME_MAX], buffer = junk (2 * NAME_MAX),
      fsys = ?z, depth = d,
      ustdout = ''Contents of Extracted Archive:'' @ newline\<rparr>"
  let ?buff1 = "filled (buff ?s) 0 ''1''"
  have a: "next_block (fp ?s) (buff ?s) (CHR '':'') (int NAME_MAX) = Inr (''f0:'', ?buff1)"
    using next_block_delim [of "''1''" "buff ?s" "''f0:''"] by (simp add: NAME_MAX_def)
  have b: "atoi (c_str ?buff1) = Some 1"
    by (simp add: c_str_filled NUL_def atoi_1)
  have c: "next_block ''f0:'' (fn_buf ?s) (CHR '':'') 1 = Inr (''0:'', filled (fn_buf ?s) 0 ''f'')"
    using next_block_limit [of "''f''" "fn_buf ?s" "''0:''"] by (simp add: NAME_MAX_def)
  have n: "c_str (filled (fn_buf ?s) 0 ''f'') = ''f''"
    by (simp add: c_str_filled NUL_def)
  have len1: "length ?buff1 = NAME_MAX"
    by (simp add: length_filled NAME_MAX_def)
  have e: "next_block ''0:'' ?buff1 (CHR '':'') (int NAME_MAX) = Inr ([], filled ?buff1 0 ''0'')"
    using len1 next_block_delim [of "''0''" ?buff1 "[]"] by (simp add: NAME_MAX_def)
  have f: "atoi (c_str (filled ?buff1 0 ''0'')) = Some 0"
    by (simp add: c_str_filled NUL_def atoi_zero)
  have g: "fopen_blocks ''f'' (fsys ?s)"
    by (simp add: fopen_blocks_def is_abs_def down_def)
  have "unpack_frame ?s = Inl Fopen_Blocks"
    by (rule unpack_frame_blocksI [OF a b c _ n _ _ e f g]) simp_all
  from unpack_loop_blocks [OF this] show ?thesis by (simp add: unpack_def)
qed

text \<open>A payload of five bytes of which the archive holds two.\<close>

lemma copy_payload_short:
  "copy_payload (nat 5) ''hi'' b [] = ([], CHR ''i'', ''hiiii'')"
  by (simp add: eval_nat_numeral)

lemma unpack_truncated:
  assumes fresh: "map_of (here z) ''f'' = None"
  shows "\<exists>u. unpack junk ''1:f5:hi'' d z = Some (Inr u) \<and> fp u = [] \<and> depth u = d \<and>
              fsys u = z\<lparr>here := here z @ [(''f'', Reg 5 ''hiiii'')]\<rparr>"
proof -
  let ?s = "\<lparr>fp = ''1:f5:hi'', fn_buf = map junk [0 ..< NAME_MAX],
      buff = map junk [NAME_MAX ..< 2 * NAME_MAX], buffer = junk (2 * NAME_MAX),
      fsys = z, depth = d,
      ustdout = ''Contents of Extracted Archive:'' @ newline\<rparr>"
  let ?buff1 = "filled (buff ?s) 0 ''1''"
  have pn: "plain_name ''f''" by (simp add: plain_name_def component_def NUL_def)
  have a: "next_block (fp ?s) (buff ?s) (CHR '':'') (int NAME_MAX) = Inr (''f5:hi'', ?buff1)"
    using next_block_delim [of "''1''" "buff ?s" "''f5:hi''"] by (simp add: NAME_MAX_def)
  have b: "atoi (c_str ?buff1) = Some 1"
    by (simp add: c_str_filled NUL_def atoi_1)
  have c: "next_block ''f5:hi'' (fn_buf ?s) (CHR '':'') 1 = Inr (''5:hi'', filled (fn_buf ?s) 0 ''f'')"
    using next_block_limit [of "''f''" "fn_buf ?s" "''5:hi''"] by (simp add: NAME_MAX_def)
  have n: "c_str (filled (fn_buf ?s) 0 ''f'') = ''f''"
    by (simp add: c_str_filled NUL_def)
  have len1: "length ?buff1 = NAME_MAX"
    by (simp add: length_filled NAME_MAX_def)
  have e: "next_block ''5:hi'' ?buff1 (CHR '':'') (int NAME_MAX) = Inr (''hi'', filled ?buff1 0 ''5'')"
    using len1 next_block_delim [of "''5''" ?buff1 "''hi''"] by (simp add: NAME_MAX_def)
  have f: "atoi (c_str (filled ?buff1 0 ''5'')) = Some 5"
    by (simp add: c_str_filled NUL_def atoi_5)
  have nb: "\<not> fopen_blocks ''f'' (fsys ?s)"
    using fopen_blocks_new [OF pn, of z] fresh by simp
  have g: "write_file ''f'' [] (fsys ?s) = Some (z\<lparr>here := here z @ [(''f'', Reg 0 [])]\<rparr>)"
    using pn fresh write_file_plain_new [of "''f''" z "[]"] by simp
  have h: "copy_payload (nat 5) ''hi'' (buffer ?s) [] = ([], CHR ''i'', ''hiiii'')"
    by (rule copy_payload_short)
  have i: "write_file ''f'' ''hiiii'' (z\<lparr>here := here z @ [(''f'', Reg 0 [])]\<rparr>)
      = Some (z\<lparr>here := here z @ [(''f'', Reg 5 ''hiiii'')]\<rparr>)"
    using pn fresh write_file_plain_old [of "''f''" "z\<lparr>here := here z @ [(''f'', Reg 0 [])]\<rparr>" 0 "[]" "''hiiii''"]
    by (simp add: map_of_snoc update_last del: map_of_append)
  have "unpack_frame ?s = Inr (?s\<lparr>fp := [], fn_buf := filled (fn_buf ?s) 0 ''f'',
      buff := filled ?buff1 0 ''5'', buffer := CHR ''i'',
      ustdout := ustdout ?s @ indent (depth ?s) @ ''f'' @ newline,
      fsys := z\<lparr>here := here z @ [(''f'', Reg 5 ''hiiii'')]\<rparr>\<rparr>)"
    by (rule unpack_frame_fileI [OF a b c _ n _ _ e f nb g h i]) simp_all
  from unpack_loop_step [OF this] show ?thesis by (simp add: unpack_def)
qed

text \<open>
  A file whose size is declared as 0 and whose six bytes follow: the bytes are read as
  the length field of a next frame, which counts as 0.
\<close>

lemma frame_sentinel_field:
  assumes ok: "arrays_ok s" and inp: "fp s = xs @ '':'' @ rest"
    and xs: "CHR '':'' \<notin> set xs" "NUL \<notin> set xs" "length xs < NAME_MAX" "atoi xs = Some 0"
  shows "\<exists>s'. unpack_frame s = Inr s' \<and> fp s' = rest \<and> arrays_ok s' \<and> depth s' = depth s - 1 \<and>
      fsys s' = up (fsys s)"
proof -
  have a: "next_block (fp s) (buff s) (CHR '':'') (int NAME_MAX) = Inr (rest, filled (buff s) 0 xs)"
    using ok inp xs next_block_delim [of xs "buff s" rest] by (simp add: arrays_ok_def)
  have b: "atoi (c_str (filled (buff s) 0 xs)) = Some 0"
    using xs by (simp add: c_str_filled)
  have c: "next_block rest (fn_buf s) (CHR '':'') 0 = Inr (rest, filled (fn_buf s) 0 [])"
    using ok next_block_limit [of "[]" "fn_buf s" rest] by (simp add: arrays_ok_def NAME_MAX_def)
  from unpack_frame_endI [OF a b c] ok xs show ?thesis
    by (simp add: arrays_ok_def length_filled NAME_MAX_def)
qed

lemma atoi_Linux: "atoi (''Linux'' @ newline @ ''0'') = Some 0"
  by (simp add: atoi_def isspace_def isdigit_def INT_MIN_def INT_MAX_def newline_def)

lemma pack_stat_size:
  "pack (\<lambda>wd n. True) ''p'' (Dir [(''ostype'', Reg 0 (''Linux'' @ newline))]) 1
       \<lparr>outfp = [], stdout = [], stderr = [], cwd = []\<rparr>
     = Returned \<lparr>outfp = ''2:p/6:ostype0:Linux'' @ newline @ ''0:'',
                 stdout = indent 1 @ ''p/'' @ newline @ indent 2 @ ''ostype'' @ newline,
                 stderr = [], cwd = []\<rparr>"
  by (simp add: Let_def dec_small digit_char_def chdir_lex_def is_abs_def chdir_step_def)

lemma unpack_stat_size:
  assumes fresh: "map_of (here z) ''p'' = None"
  shows "\<exists>u. unpack junk (''2:p/6:ostype0:Linux'' @ newline @ ''0:'') d z = Some (Inr u) \<and>
              fp u = [] \<and> depth u = d \<and>
              fsys u = z\<lparr>here := here z @ [(''p'', Dir [(''ostype'', Reg 0 [])])]\<rparr>"
proof -
  let ?s0 = "\<lparr>fp = ''2:p/6:ostype0:Linux'' @ newline @ ''0:'', fn_buf = map junk [0 ..< NAME_MAX],
      buff = map junk [NAME_MAX ..< 2 * NAME_MAX], buffer = junk (2 * NAME_MAX),
      fsys = z, depth = d,
      ustdout = ''Contents of Extracted Archive:'' @ newline\<rparr>"
  let ?rest1 = "''6:ostype0:Linux'' @ newline @ ''0:''"
  let ?rest2 = "''Linux'' @ newline @ ''0:''"
  have ok0: "arrays_ok ?s0" by (rule arrays_ok_initial)
  have pp: "plain_name ''p''" "length ''p'' + 1 < NAME_MAX"
    by (simp_all add: plain_name_def component_def NUL_def NAME_MAX_def)
  have po: "plain_name ''ostype''" "length ''ostype'' < NAME_MAX"
    by (simp_all add: plain_name_def component_def NUL_def NAME_MAX_def)
  have i0: "fp ?s0 = dec (length ''p'' + 1) @ '':'' @ ''p'' @ ''/'' @ ?rest1"
    by (simp add: dec_small digit_char_def)
  from frame_dir [OF ok0 pp _ i0] fresh ok0
  obtain s1 where s1: "unpack_frame ?s0 = Inr s1" "fp s1 = ?rest1" "arrays_ok s1"
      "depth s1 = d + 1" "fsys s1 = \<lparr>here = [], above = (here z, ''p'', []) # above z\<rparr>"
    by (simp add: arrays_ok_def length_filled NAME_MAX_def dec_small)
  have i1: "fp s1 = dec (length ''ostype'') @ '':'' @ ''ostype'' @ dec (length ([]::string)) @ '':'' @ [] @ ?rest2"
    using s1(2) by (simp add: dec_small digit_char_def)
  have sz: "int (length ([]::string)) \<le> INT_MAX" by (simp add: INT_MAX_def)
  from frame_file [OF s1(3) po sz _ i1] s1
  obtain s2 where s2: "unpack_frame s1 = Inr s2" "fp s2 = ?rest2" "arrays_ok s2"
      "depth s2 = d + 1"
      "fsys s2 = \<lparr>here = [(''ostype'', Reg 0 [])], above = (here z, ''p'', []) # above z\<rparr>"
    by (simp add: arrays_ok_def length_filled NAME_MAX_def dec_small)
  have i2: "fp s2 = (''Linux'' @ newline @ ''0'') @ '':'' @ []"
    using s2(2) by simp
  from frame_sentinel_field [OF s2(3) i2 _ _ _ atoi_Linux] s2
  obtain s3 where s3: "unpack_frame s2 = Inr s3" "fp s3 = []" "depth s3 = d"
      "fsys s3 = z\<lparr>here := here z @ [(''p'', Dir [(''ostype'', Reg 0 [])])]\<rparr>"
    by (auto simp: up_def newline_def NUL_def NAME_MAX_def)
  have "unpack_loop ?s0 = unpack_loop s1" using unpack_loop_step [OF s1(1)] s1(2) by simp
  also have "\<dots> = unpack_loop s2" using unpack_loop_step [OF s2(1)] s2(2) by simp
  also have "\<dots> = Some (Inr s3)" using unpack_loop_step [OF s3(1)] s3(2) by simp
  finally show ?thesis using s3 by (simp add: unpack_def)
qed

text \<open>A directory frame with an absolute path.\<close>

lemma stat_root: "stat ''/'' z = Some \<lparr>st_mode = S_IFDIR, st_size = 0\<rparr>"
  by (simp add: stat_def is_abs_def)

lemma unpack_absolute_path:
  "unpack junk ''3:/d/0:'' d z = Some (Inl Mkpath_Failed)"
proof -
  let ?s = "\<lparr>fp = ''3:/d/0:'', fn_buf = map junk [0 ..< NAME_MAX],
      buff = map junk [NAME_MAX ..< 2 * NAME_MAX], buffer = junk (2 * NAME_MAX),
      fsys = z, depth = d,
      ustdout = ''Contents of Extracted Archive:'' @ newline\<rparr>"
  let ?buff1 = "filled (buff ?s) 0 ''3''"
  have a: "next_block (fp ?s) (buff ?s) (CHR '':'') (int NAME_MAX) = Inr (''/d/0:'', ?buff1)"
    using next_block_delim [of "''3''" "buff ?s" "''/d/0:''"] by (simp add: NAME_MAX_def)
  have b: "atoi (c_str ?buff1) = Some 3"
    by (simp add: c_str_filled NUL_def atoi_3)
  have c: "next_block ''/d/0:'' (fn_buf ?s) (CHR '':'') 3 = Inr (''0:'', filled (fn_buf ?s) 0 ''/d/'')"
    using next_block_limit [of "''/d/''" "fn_buf ?s" "''0:''"] by (simp add: NAME_MAX_def)
  have n: "c_str (filled (fn_buf ?s) 0 ''/d/'') = ''/d/''"
    by (simp add: c_str_filled NUL_def)
  have m: "mkpath ''/d/'' (fsys ?s) = (- 1, z)"
    using mkpath_absolute [of "''/d/''" z] by (simp add: is_abs_def)
  have "unpack_frame ?s = Inl Mkpath_Failed"
    by (rule unpack_frame_mkpath_failsI [OF a b c _ n _ _ m]) simp_all
  from unpack_loop_error [OF this] show ?thesis by (simp add: unpack_def)
qed

section \<open>The claims\<close>

subsection \<open>Reading beyond the arrays\<close>

text \<open>
  Claim C5 asks that a name or a length field beyond the bound of 255 bytes is rejected
  or truncated and that every write of \<^verbatim>\<open>next_block\<close> stays inside the array of 255
  bytes. The code does not do that. A frame that declares a name of 300 bytes makes
  \<^verbatim>\<open>next_block\<close> store the name bytes 255 to 299 behind the array \<^verbatim>\<open>fn\<close>, and a
  length field of 255 digits fills the array \<^verbatim>\<open>buff\<close> and has its final NUL stored at
  index 255, behind the array. The model stops at the first such store.
\<close>

theorem next_block_overflows:
  "unpack junk (''300:'' @ replicate 300 (CHR ''a'')) d z = Some (Inl (Out_Of_Bounds 255)) \<and>
   unpack junk (replicate 255 (CHR ''1'')) d z = Some (Inl (Out_Of_Bounds 255))"
  using unpack_long_name unpack_long_length_field by simp

subsection \<open>A sentinel at the top level\<close>

text \<open>
  Claim C6 says that an archive whose only record is the sentinel \<^verbatim>\<open>0:\<close> does not
  take the unpacker above its starting directory or its depth counter below the
  starting value. The code has no guard: started at depth 1 in a directory \<^verbatim>\<open>d\<close> of
  the root, it ends at depth 0 in the root.
\<close>

theorem sentinel_only_underflows:
  "\<exists>u. unpack (\<lambda>i. NUL) ''0:'' 1 \<lparr>here = [(''f'', Reg 1 ''q'')], above = [([], ''d'', [])]\<rparr> = Some (Inr u) \<and>
       depth u = 0 \<and>
       fsys u = \<lparr>here = [(''d'', Dir [(''f'', Reg 1 ''q'')])], above = []\<rparr>"
  using unpack_single_sentinel [of "\<lambda>i. NUL" 1 "\<lparr>here = [(''f'', Reg 1 ''q'')], above = [([], ''d'', [])]\<rparr>"]
  by (auto simp: up_def)

text \<open>
  Claim C6 as amended: on the archive \<^verbatim>\<open>0:\<close> the unpacker reads the whole archive,
  leaves the working directory for its parent once (the root is its own parent), lowers
  the depth counter by one, and returns.
\<close>

theorem sentinel_only_ascends:
  "\<exists>u. unpack junk ''0:'' d z = Some (Inr u) \<and> fp u = [] \<and> depth u = d - 1 \<and> fsys u = up z"
  by (rule unpack_single_sentinel)

theorem sentinel_only_ascends_witness:
  "\<exists>u. unpack (\<lambda>i. CHR ''x'') ''0:'' 1 \<lparr>here = [], above = []\<rparr> = Some (Inr u) \<and>
       fp u = [] \<and> depth u = 0 \<and> fsys u = \<lparr>here = [], above = []\<rparr>"
  using sentinel_only_ascends [of "\<lambda>i. CHR ''x''" 1 "\<lparr>here = [], above = []\<rparr>"]
  by (simp add: up_def)

subsection \<open>Termination\<close>

text \<open>
  Claim C9 says that \<^verbatim>\<open>unpack\<close> returns on every finite archive. The stream of a
  file frame comes from \<^verbatim>\<open>fopen(fn, "w")\<close>, and nothing is asked about the name before
  the call: where it leads to a FIFO that no process reads, the call waits for a reader
  and does not return. In a directory with such a FIFO \<^verbatim>\<open>f\<close> the run on the archive
  \<^verbatim>\<open>1:f0:\<close> never ends.
\<close>

theorem unpack_waits_at_fifo:
  "unpack (\<lambda>i. NUL) ''1:f0:'' 1 \<lparr>here = [(''f'', Special Fifo)], above = []\<rparr> = None"
  by (rule unpack_fifo)

text \<open>
  Claim C9 as amended: when the file system holds no FIFO without a reader and no
  symbolic link to one (\<open>no_fifo\<close>), the run of \<^verbatim>\<open>unpack\<close> ends on every archive,
  which is a finite list of bytes, well-formed or not: by its return, in \<^verbatim>\<open>err\<close>, or at
  undefined behaviour. Every pass of the loop takes at least one byte from an archive
  that is not exhausted. At the end of the archive \<^verbatim>\<open>next_block\<close> reads nothing and
  stores the final NUL only; on the empty archive the frame read is the sentinel, the
  unpacker ascends once and the test for the end of the file leaves the loop.
\<close>

theorem unpack_terminates:
  assumes "no_fifo z"
  shows "(\<exists>r. unpack junk bytes d z = Some r) \<and>
         next_block [] (map junk [0 ..< NAME_MAX]) delim max_reads
           = Inr ([], (map junk [0 ..< NAME_MAX])[0 := NUL]) \<and>
         (\<exists>u. unpack junk [] d z = Some (Inr u) \<and> fp u = [] \<and> depth u = d - 1 \<and> fsys u = up z)"
proof (intro conjI)
  show "\<exists>r. unpack junk bytes d z = Some r"
    unfolding unpack_def by (rule unpack_loop_total) (simp add: assms)
  show "next_block [] (map junk [0 ..< NAME_MAX]) delim max_reads
      = Inr ([], (map junk [0 ..< NAME_MAX])[0 := NUL])"
    by (rule next_block_at_end)
  show "\<exists>u. unpack junk [] d z = Some (Inr u) \<and> fp u = [] \<and> depth u = d - 1 \<and> fsys u = up z"
    by (rule unpack_empty)
qed

text \<open>
  The claim in a directory with a device \<^verbatim>\<open>g\<close>, on an archive whose payload is cut
  short: the file declared with five bytes gets the two bytes there are and three times
  the last of them.
\<close>

theorem unpack_terminates_witness:
  "no_fifo \<lparr>here = [(''g'', Special Device)], above = []\<rparr> \<and>
   (\<exists>r. unpack (\<lambda>i. NUL) ''1:f5:hi'' 1 \<lparr>here = [(''g'', Special Device)], above = []\<rparr> = Some r) \<and>
   (\<exists>u. unpack (\<lambda>i. NUL) ''1:f5:hi'' 1 \<lparr>here = [(''g'', Special Device)], above = []\<rparr> = Some (Inr u) \<and>
        fp u = [] \<and> depth u = 1 \<and>
        fsys u = \<lparr>here = [(''g'', Special Device), (''f'', Reg 5 ''hiiii'')], above = []\<rparr>)"
proof -
  have n: "no_fifo \<lparr>here = [(''g'', Special Device)], above = []\<rparr>"
    by (simp add: no_fifo_def)
  have m: "map_of (here \<lparr>here = [(''g'', Special Device)], above = []\<rparr>) ''f'' = None"
    by simp
  from unpack_terminates [OF n, of "\<lambda>i. NUL" "''1:f5:hi''" 1]
    unpack_truncated [OF m, of "\<lambda>i. NUL" 1] n
  show ?thesis by simp
qed

subsection \<open>The round trip\<close>

text \<open>
  Claim C1 says that unpacking the archive of a tree of regular files and directories
  gives the tree back. The unpacker reads a name with \<^verbatim>\<open>next_block\<close> and the
  delimiter \<^verbatim>\<open>:\<close>, so a name is cut at its first colon although its length is
  declared. For the directory \<^verbatim>\<open>x\<close> with the file \<^verbatim>\<open>a:b\<close> of content \<^verbatim>\<open>hi\<close> the
  packer writes \<^verbatim>\<open>2:x/3:a:b2:hi0:\<close>, and the unpacker creates \<^verbatim>\<open>x\<close> with an empty
  file \<^verbatim>\<open>a\<close>.
\<close>

theorem round_trip_fails_on_colon:
  "pack (\<lambda>wd n. True) ''x'' (Dir [(''a:b'', Reg 2 ''hi'')]) 1 \<lparr>outfp = [], stdout = [], stderr = [], cwd = []\<rparr>
     = Returned \<lparr>outfp = ''2:x/3:a:b2:hi0:'',
                 stdout = indent 1 @ ''x/'' @ newline @ indent 2 @ ''a:b'' @ newline, stderr = [], cwd = []\<rparr> \<and>
   (\<exists>u. unpack junk ''2:x/3:a:b2:hi0:'' 1 \<lparr>here = [], above = []\<rparr> = Some (Inr u) \<and>
        fsys u = \<lparr>here = [(''x'', Dir [(''a'', Reg 0 [])])], above = []\<rparr>)"
  using pack_colon_name [of 2 "''hi''"] unpack_colon_name [of "\<lparr>here = [], above = []\<rparr>" junk 1]
  by (auto simp: dec_small digit_char_def)

subsection \<open>Sentinels and the depth counter\<close>

text \<open>
  Claim C2 says that every directory frame has its sentinel and that the depth counter
  of the unpacker is back at its start after the archive of \<^verbatim>\<open>pack\<close>. The frames of
  \<^verbatim>\<open>pack\<close> are balanced, but the unpacker loses track at a name with a colon: for the
  directory \<^verbatim>\<open>x\<close> with the file \<^verbatim>\<open>a:b\<close> of content \<^verbatim>\<open>0:\<close> it reads the content as
  a second sentinel, and started at depth 1 in the directory \<^verbatim>\<open>d\<close> it ends at depth 0
  in the parent of \<^verbatim>\<open>d\<close>.
\<close>

theorem depth_not_restored_on_colon:
  "pack (\<lambda>wd n. True) ''x'' (Dir [(''a:b'', Reg 2 ''0:'')]) 1 \<lparr>outfp = [], stdout = [], stderr = [], cwd = []\<rparr>
     = Returned \<lparr>outfp = ''2:x/3:a:b2:0:0:'',
                 stdout = indent 1 @ ''x/'' @ newline @ indent 2 @ ''a:b'' @ newline, stderr = [], cwd = []\<rparr> \<and>
   (\<exists>u. unpack junk ''2:x/3:a:b2:0:0:'' 1 \<lparr>here = [], above = [([], ''d'', [])]\<rparr> = Some (Inr u) \<and>
        depth u = 0 \<and>
        fsys u = \<lparr>here = [(''d'', Dir [(''x'', Dir [(''a'', Reg 0 [])])])], above = []\<rparr>)"
  using pack_colon_name [of 2 "''0:''"]
    unpack_colon_name_sentinel [of "\<lparr>here = [], above = [([], ''d'', [])]\<rparr>" junk 1]
  by (auto simp: dec_small digit_char_def up_def)

subsection \<open>Length fields\<close>

text \<open>
  Claim C3 says that the length before the content of a file is the number of the
  content's bytes, and the length before a name the length of the name. The second
  holds (\<open>frames_name_lengths\<close>). For the first, \<^verbatim>\<open>pack\<close> writes \<^verbatim>\<open>st.st_size\<close> and
  then copies the bytes it reads up to the end of the file, and nothing ties the one to
  the other. For a file \<^verbatim>\<open>ostype\<close> for which \<^verbatim>\<open>stat\<close> reports the size 0 and from
  which \<^verbatim>\<open>Linux\<close> and a newline are read, as it is with \<^verbatim>\<open>/proc/sys/kernel/ostype\<close>,
  the frame declares no bytes and holds six. The unpacker reads a payload by its
  declared length: from the archive of a directory \<^verbatim>\<open>p\<close> with this file it creates
  \<^verbatim>\<open>p\<close> with an empty file \<^verbatim>\<open>ostype\<close> and takes the six bytes for the length field
  of a next frame.
\<close>

theorem declared_size_is_stat_size:
  "pack (\<lambda>wd n. True) ''ostype'' (Reg 0 (''Linux'' @ newline)) 1
       \<lparr>outfp = [], stdout = [], stderr = [], cwd = []\<rparr>
     = Returned \<lparr>outfp = ''6:ostype0:Linux'' @ newline,
                 stdout = indent 1 @ ''ostype'' @ newline, stderr = [], cwd = []\<rparr> \<and>
   frames ''ostype'' (Reg 0 (''Linux'' @ newline)) = [File_Frame 6 ''ostype'' 0 (''Linux'' @ newline)] \<and>
   length (''Linux'' @ newline) = 6 \<and>
   \<not> faithful (File_Frame 6 ''ostype'' 0 (''Linux'' @ newline)) \<and>
   pack (\<lambda>wd n. True) ''p'' (Dir [(''ostype'', Reg 0 (''Linux'' @ newline))]) 1
       \<lparr>outfp = [], stdout = [], stderr = [], cwd = []\<rparr>
     = Returned \<lparr>outfp = ''2:p/6:ostype0:Linux'' @ newline @ ''0:'',
                 stdout = indent 1 @ ''p/'' @ newline @ indent 2 @ ''ostype'' @ newline,
                 stderr = [], cwd = []\<rparr> \<and>
   (\<exists>u. unpack junk (''2:p/6:ostype0:Linux'' @ newline @ ''0:'') 1 \<lparr>here = [], above = []\<rparr> = Some (Inr u) \<and>
        fp u = [] \<and> depth u = 1 \<and>
        fsys u = \<lparr>here = [(''p'', Dir [(''ostype'', Reg 0 [])])], above = []\<rparr>)"
proof -
  have a: "pack (\<lambda>wd n. True) ''ostype'' (Reg 0 (''Linux'' @ newline)) 1
       \<lparr>outfp = [], stdout = [], stderr = [], cwd = []\<rparr>
     = Returned \<lparr>outfp = ''6:ostype0:Linux'' @ newline,
                 stdout = indent 1 @ ''ostype'' @ newline, stderr = [], cwd = []\<rparr>"
    by (simp add: Let_def dec_small digit_char_def)
  have b: "frames ''ostype'' (Reg 0 (''Linux'' @ newline)) = [File_Frame 6 ''ostype'' 0 (''Linux'' @ newline)]"
    "length (''Linux'' @ newline) = 6"
    "\<not> faithful (File_Frame 6 ''ostype'' 0 (''Linux'' @ newline))"
    by (simp_all add: newline_def)
  from a b pack_stat_size unpack_stat_size [of "\<lparr>here = [], above = []\<rparr>" junk 1]
  show ?thesis by simp
qed

subsection \<open>The working directory\<close>

text \<open>
  Claim C4 says that the working directory after \<^verbatim>\<open>pack(p)\<close> is the one before, for
  every path \<^verbatim>\<open>p\<close>, and likewise after unpacking. \<^verbatim>\<open>pack\<close> enters with \<^verbatim>\<open>chdir(fn)\<close>
  and leaves with \<^verbatim>\<open>chdir("..")\<close>, which undoes one component only: after
  \<^verbatim>\<open>pack("a/b")\<close> the working directory is \<^verbatim>\<open>a\<close>, after \<^verbatim>\<open>pack(".")\<close> it is the
  parent, and unpacking the archive of \<^verbatim>\<open>a/b\<close> ends in \<^verbatim>\<open>a\<close>.
\<close>

theorem cwd_not_restored:
  "pack (\<lambda>wd n. True) ''a/b'' (Dir []) d \<lparr>outfp = [], stdout = [], stderr = [], cwd = wd\<rparr>
     = Returned \<lparr>outfp = ''4:a/b/0:'', stdout = indent d @ ''a/b/'' @ newline, stderr = [],
                 cwd = wd @ [''a'']\<rparr> \<and>
   pack (\<lambda>wd n. True) ''.'' (Dir []) d \<lparr>outfp = [], stdout = [], stderr = [], cwd = wd @ [''w'']\<rparr>
     = Returned \<lparr>outfp = ''2:./0:'', stdout = indent d @ ''./'' @ newline, stderr = [],
                 cwd = wd\<rparr> \<and>
   (\<exists>u. unpack junk ''4:a/b/0:'' d \<lparr>here = [], above = []\<rparr> = Some (Inr u) \<and> fp u = [] \<and>
        depth u = d \<and> fsys u = \<lparr>here = [(''b'', Dir [])], above = [([], ''a'', [])]\<rparr>)"
  using pack_nested_path [of d wd] pack_dot [of d "wd @ [''w'']"] unpack_nested_path [of junk d]
  by simp

subsection \<open>Entries that are skipped\<close>




subsection \<open>The sentinel and the names\<close>

text \<open>
  Claim C10: when no name is empty, every file frame of \<^verbatim>\<open>pack\<close> declares a name of
  at least one byte and every directory frame one of at least two, so the length field
  of a frame reads as 0 exactly for the sentinel.
\<close>

theorem sentinel_unambiguous:
  assumes "pack may_open fn node d s = Returned s'" and "fn \<noteq> []" and "named node"
  shows "outfp s' = outfp s @ concat (map render (frames fn node)) \<and>
         (\<forall>f \<in> set (frames fn node).
            (case f of Dir_Frame n name \<Rightarrow> 2 \<le> n
                     | File_Frame n name m bytes \<Rightarrow> 1 \<le> n
                     | End_Dir \<Rightarrow> True) \<and>
            (atoi (length_field f) = Some 0 \<longleftrightarrow> f = End_Dir))"
  using pack_outfp [OF assms(1)] frames_declared [OF assms(2,3)] sentinel_discriminates
  by (simp add: archive_def)

text \<open>The claim at a directory \<^verbatim>\<open>d\<close> with one file \<^verbatim>\<open>f\<close>.\<close>

theorem sentinel_unambiguous_witness:
  "pack (\<lambda>wd n. True) ''d'' (Dir [(''f'', Reg 2 ''hi'')]) 1
       \<lparr>outfp = [], stdout = [], stderr = [], cwd = []\<rparr>
     = Returned \<lparr>outfp = ''2:d/1:f2:hi0:'',
                 stdout = indent 1 @ ''d/'' @ newline @ indent 2 @ ''f'' @ newline,
                 stderr = [], cwd = []\<rparr> \<and>
   ''d'' \<noteq> [] \<and> named (Dir [(''f'', Reg 2 ''hi'')]) \<and>
   frames ''d'' (Dir [(''f'', Reg 2 ''hi'')]) = [Dir_Frame (length ''d'' + 1) ''d'', File_Frame (length ''f'') ''f'' 2 ''hi'', End_Dir] \<and>
   atoi (length_field (Dir_Frame (length ''d'' + 1) ''d'')) \<noteq> Some 0 \<and>
   atoi (length_field (File_Frame (length ''f'') ''f'' 2 ''hi'')) \<noteq> Some 0 \<and>
   atoi (length_field End_Dir) = Some 0"
proof -
  have h: "pack (\<lambda>wd n. True) ''d'' (Dir [(''f'', Reg 2 ''hi'')]) 1
       \<lparr>outfp = [], stdout = [], stderr = [], cwd = []\<rparr>
     = Returned \<lparr>outfp = ''2:d/1:f2:hi0:'',
                 stdout = indent 1 @ ''d/'' @ newline @ indent 2 @ ''f'' @ newline,
                 stderr = [], cwd = []\<rparr>"
    by (simp add: Let_def dec_small digit_char_def chdir_lex_def is_abs_def chdir_step_def)
  have n: "''d'' \<noteq> []" "named (Dir [(''f'', Reg 2 ''hi'')])" by simp_all
  from sentinel_unambiguous [OF h n] h show ?thesis by simp
qed

subsection \<open>Directories and their parents\<close>

text \<open>
  What \<^verbatim>\<open>mkpath\<close> does for the path of a directory entry with the components \<open>cs\<close>,
  relative to the working directory: it returns 0 or -1, and -1 only when, at some
  \<^verbatim>\<open>/\<close> of the path, the path before it exists and is no directory, or does not exist
  and \<^verbatim>\<open>mkdir\<close> fails for it; when no component exists as something else than a
  directory, it returns 0 and has created exactly the missing components
  (\<open>ensure_dirs\<close>), and a second call returns 0 and changes nothing; otherwise it
  returns -1.
\<close>

lemma mkpath_components:
  "(fst (mkpath pathname z) = 0 \<or> fst (mkpath pathname z) = - 1) \<and>
   (fst (mkpath pathname z) = - 1 \<longrightarrow>
      (\<exists>tmp rest. pathname = tmp @ CHR ''/'' # rest \<and>
         ((\<exists>st. stat tmp (snd (mkpath pathname z)) = Some st \<and> st_mode st \<noteq> S_IFDIR) \<or>
          (stat tmp (snd (mkpath pathname z)) = None \<and>
           mkdir tmp (snd (mkpath pathname z)) = None)))) \<and>
   (list_all component cs \<longrightarrow>
      (case ensure_dirs cs (here z) of
         Some es \<Rightarrow> mkpath (path_of cs) z = (0, z\<lparr>here := es\<rparr>) \<and>
                    mkpath (path_of cs) (z\<lparr>here := es\<rparr>) = (0, z\<lparr>here := es\<rparr>)
       | None \<Rightarrow> fst (mkpath (path_of cs) z) = - 1))"
proof (intro conjI impI)
  show "fst (mkpath pathname z) = 0 \<or> fst (mkpath pathname z) = - 1"
    unfolding mkpath_def by (rule mkpath_from_code)
  show "\<exists>tmp rest. pathname = tmp @ CHR ''/'' # rest \<and>
         ((\<exists>st. stat tmp (snd (mkpath pathname z)) = Some st \<and> st_mode st \<noteq> S_IFDIR) \<or>
          (stat tmp (snd (mkpath pathname z)) = None \<and>
           mkdir tmp (snd (mkpath pathname z)) = None))"
    if "fst (mkpath pathname z) = - 1"
    using mkpath_from_fails [of "[]" pathname z] that unfolding mkpath_def by simp
  assume cs: "list_all component cs"
  show "case ensure_dirs cs (here z) of
         Some es \<Rightarrow> mkpath (path_of cs) z = (0, z\<lparr>here := es\<rparr>) \<and>
                    mkpath (path_of cs) (z\<lparr>here := es\<rparr>) = (0, z\<lparr>here := es\<rparr>)
       | None \<Rightarrow> fst (mkpath (path_of cs) z) = - 1"
  proof (cases "ensure_dirs cs (here z)")
    case None
    with mkpath_ensure [OF cs, of z] show ?thesis
      by (simp add: mkpath_def) (metis fst_conv)
  next
    case (Some es)
    from ensure_dirs_idem [OF Some] mkpath_ensure [OF cs, of "z\<lparr>here := es\<rparr>"]
    have "mkpath (path_of cs) (z\<lparr>here := es\<rparr>) = (0, z\<lparr>here := es\<rparr>)"
      by (simp add: mkpath_def)
    with Some mkpath_ensure [OF cs, of z] show ?thesis by (simp add: mkpath_def)
  qed
qed

text \<open>
  Claim C8 says that \<^verbatim>\<open>mkpath\<close> creates exactly the missing components of the path
  and returns 0 wherever the ancestors that exist are directories. For relative paths
  of proper components it does (\<open>mkpath_components\<close>). For a path that starts with
  \<^verbatim>\<open>/\<close> it does not: the loop cuts the path at every \<^verbatim>\<open>/\<close>, also at the first byte,
  where the path before it is empty; \<^verbatim>\<open>stat("")\<close> fails, \<^verbatim>\<open>mkdir("")\<close> fails, and
  \<^verbatim>\<open>mkpath\<close> returns -1 with nothing created. So \<^verbatim>\<open>mkpath("/d/")\<close> fails in every
  file system, although the root is a directory, and also where \<^verbatim>\<open>/d\<close> is one. Such
  paths reach \<^verbatim>\<open>mkpath\<close>: \<^verbatim>\<open>pack("/d")\<close> writes the frame \<^verbatim>\<open>3:/d/\<close>, and \<^verbatim>\<open>unpack\<close>
  ends in \<^verbatim>\<open>err\<close> on it.
\<close>

theorem mkpath_fails_on_absolute_path:
  "stat ''/'' z = Some \<lparr>st_mode = S_IFDIR, st_size = 0\<rparr> \<and>
   mkpath ''/d/'' z = (- 1, z) \<and>
   stat ''/d'' \<lparr>here = [(''d'', Dir [])], above = []\<rparr> = Some \<lparr>st_mode = S_IFDIR, st_size = 0\<rparr> \<and>
   mkpath ''/d/'' \<lparr>here = [(''d'', Dir [])], above = []\<rparr> = (- 1, \<lparr>here = [(''d'', Dir [])], above = []\<rparr>) \<and>
   pack (\<lambda>wd n. True) ''/d'' (Dir []) 1 \<lparr>outfp = [], stdout = [], stderr = [], cwd = []\<rparr>
     = Returned \<lparr>outfp = ''3:/d/0:'', stdout = indent 1 @ ''/d/'' @ newline, stderr = [], cwd = []\<rparr> \<and>
   unpack junk ''3:/d/0:'' d z = Some (Inl Mkpath_Failed)"
proof (intro conjI)
  show "stat ''/'' z = Some \<lparr>st_mode = S_IFDIR, st_size = 0\<rparr>"
    by (rule stat_root)
  show "mkpath ''/d/'' z = (- 1, z)"
    using mkpath_absolute [of "''/d/''" z] by (simp add: is_abs_def)
  show "stat ''/d'' \<lparr>here = [(''d'', Dir [])], above = []\<rparr> = Some \<lparr>st_mode = S_IFDIR, st_size = 0\<rparr>"
    by (simp add: stat_def is_abs_def top_def down_def)
  show "mkpath ''/d/'' \<lparr>here = [(''d'', Dir [])], above = []\<rparr> = (- 1, \<lparr>here = [(''d'', Dir [])], above = []\<rparr>)"
    using mkpath_absolute [of "''/d/''" "\<lparr>here = [(''d'', Dir [])], above = []\<rparr>"] by (simp add: is_abs_def)
  show "pack (\<lambda>wd n. True) ''/d'' (Dir []) 1 \<lparr>outfp = [], stdout = [], stderr = [], cwd = []\<rparr>
     = Returned \<lparr>outfp = ''3:/d/0:'', stdout = indent 1 @ ''/d/'' @ newline, stderr = [], cwd = []\<rparr>"
    by (simp add: Let_def chdir_lex_def is_abs_def chdir_step_def dec_small digit_char_def)
  show "unpack junk ''3:/d/0:'' d z = Some (Inl Mkpath_Failed)"
    by (rule unpack_absolute_path)
qed

end
